(* ===== verification/Prelude.thy ===== *)
theory Prelude
  imports Complex_Main "HOL-Library.AList"
begin

text \<open>
  Shared vocabulary of the QMJson development: the names of the model's types, the
  collection of heap frame facts that the component proofs hand to the simplifier,
  and generic lemmas on association lists (the model of \<open>QHash\<close>) used by more than
  one component.
\<close>

section \<open>Types of the model\<close>

text \<open>
  A \<open>QMPointer\<close> handle is the address of a heap cell. Value cells, objects and arrays
  live in three stores of one heap (theory \<open>JsonHeap\<close>); a handle is a \<open>nat\<close> into
  the store of its kind. \<open>QString\<close> keys are HOL strings.
\<close>

type_synonym vref = nat
type_synonym oref = nat
type_synonym aref = nat
type_synonym key = string

text \<open>
  \<open>QHash<QString, V>\<close> is modelled as an association list in the hash's iteration
  order. Its keys are distinct (\<open>hash_ok\<close> below); lookup is \<open>map_of\<close>,
  erasure is \<open>AList.delete\<close>, insertion of an absent key is \<open>AList.update\<close>,
  which appends. The order of a real \<open>QHash\<close> is unspecified; the model fixes
  insertion order, and every theorem about contents is stated through \<open>map_of\<close>.
\<close>

type_synonym 'v hash = "(key \<times> 'v) list"

definition hash_ok :: "'v hash \<Rightarrow> bool" where
  "hash_ok m \<longleftrightarrow> distinct (map fst m)"

named_theorems heap_simps "access and frame equations of the heap operations"

section \<open>Association lists\<close>

lemma update_absent_append [simp]:
  "map_of al k = None \<Longrightarrow> AList.update k v al = al @ [(k, v)]"
  by (induction al) (auto split: if_splits)

lemma hash_ok_update [simp]: "hash_ok m \<Longrightarrow> hash_ok (AList.update k v m)"
  by (simp add: hash_ok_def distinct_update)

lemma hash_ok_delete [simp]: "hash_ok m \<Longrightarrow> hash_ok (AList.delete k m)"
  by (simp add: hash_ok_def distinct_delete)

lemma hash_ok_Nil [simp]: "hash_ok []"
  by (simp add: hash_ok_def)

lemma map_of_delete_same [simp]: "map_of (AList.delete k m) k = None"
  by (simp add: delete_conv')

lemma length_delete_present:
  "hash_ok m \<Longrightarrow> map_of m k = Some v \<Longrightarrow> length (AList.delete k m) = length m - 1"
proof (induction m)
  case Nil
  then show ?case by simp
next
  case (Cons p m)
  obtain k' v' where p: "p = (k', v')" by fastforce
  show ?case
  proof (cases "k' = k")
    case True
    with Cons.prems p have "k \<notin> fst ` set m" by (auto simp: hash_ok_def)
    with True p show ?thesis by simp
  next
    case False
    with Cons.prems p have "hash_ok m" "map_of m k = Some v"
      by (auto simp: hash_ok_def)
    with Cons.IH False p show ?thesis
      by (cases m) auto
  qed
qed

lemma set_values_update:
  "set (map snd (AList.update k v m)) \<subseteq> insert v (set (map snd m))"
  by (induction m) auto

lemma set_values_delete:
  "set (map snd (AList.delete k m)) \<subseteq> set (map snd m)"
  by (induction m) auto

lemma map_of_in_values: "map_of m k = Some v \<Longrightarrow> v \<in> set (map snd m)"
  by (induction m) (auto split: if_splits)

lemma find_Some_mem: "find P xs = Some x \<Longrightarrow> x \<in> set xs \<and> P x"
  by (induction xs) (auto split: if_splits)

lemma map_add_single_fresh: "m k = None \<Longrightarrow> [k \<mapsto> v] ++ m = m(k \<mapsto> v)"
  by (rule ext) (simp add: map_add_def split: option.splits)

lemma map_add_single_upd [simp]: "[k \<mapsto> v] ++ f(k := None) = f(k \<mapsto> v)"
  by (rule ext) (simp add: map_add_def split: option.splits)

lemma keys_delete [simp]: "set (map fst (AList.delete k m)) = set (map fst m) - {k}"
  by (simp add: delete_keys)

lemma keys_update [simp]: "set (map fst (AList.update k v m)) = insert k (set (map fst m))"
  by (induction m) auto

end
