(* ===== verification/JsonValue.thy ===== *)
theory JsonValue
  imports Prelude
begin

text \<open>
  \<open>QMJsonValue\<close>: the payload of one value cell, its kind predicates, its typed
  getters with a fallback default and its typed setters with a change indicator. The
  class is not under \<open>src/\<close>; it is modelled from its contract in the specification
  (section 4.1): a value is exactly one of null, bool, number, string, array or object;
  a getter on a value of another kind returns its default; a setter overwrites kind and
  payload and says whether the value changed. An array or object payload is the handle
  of the container the value owns. Numbers (C++ \<open>double\<close>) are modelled as
  \<open>real\<close>: the object code does no arithmetic on them, only stores, compares and
  returns them.
\<close>

section \<open>The payload\<close>

datatype jvalue =
    JNull
  | JBool bool
  | JDouble real
  | JString string
  | JArray aref
  | JObject oref

section \<open>Kind predicates\<close>

fun isNull :: "jvalue \<Rightarrow> bool" where
  "isNull JNull = True"
| "isNull _ = False"

fun isBool :: "jvalue \<Rightarrow> bool" where
  "isBool (JBool _) = True"
| "isBool _ = False"

fun isDouble :: "jvalue \<Rightarrow> bool" where
  "isDouble (JDouble _) = True"
| "isDouble _ = False"

fun isString :: "jvalue \<Rightarrow> bool" where
  "isString (JString _) = True"
| "isString _ = False"

fun isArray :: "jvalue \<Rightarrow> bool" where
  "isArray (JArray _) = True"
| "isArray _ = False"

fun isObject :: "jvalue \<Rightarrow> bool" where
  "isObject (JObject _) = True"
| "isObject _ = False"

section \<open>Typed getters with default\<close>

fun toBool :: "jvalue \<Rightarrow> bool \<Rightarrow> bool" where
  "toBool (JBool b) d = b"
| "toBool _ d = d"

fun toDouble :: "jvalue \<Rightarrow> real \<Rightarrow> real" where
  "toDouble (JDouble x) d = x"
| "toDouble _ d = d"

fun toString :: "jvalue \<Rightarrow> string \<Rightarrow> string" where
  "toString (JString s) d = s"
| "toString _ d = d"

fun toArray :: "jvalue \<Rightarrow> aref \<Rightarrow> aref" where
  "toArray (JArray a) d = a"
| "toArray _ d = d"

fun toObject :: "jvalue \<Rightarrow> oref \<Rightarrow> oref" where
  "toObject (JObject ob) d = ob"
| "toObject _ d = d"

text \<open>The getters without a default use the type's zero value.\<close>

abbreviation toBool0 :: "jvalue \<Rightarrow> bool" where
  "toBool0 v \<equiv> toBool v False"

abbreviation toDouble0 :: "jvalue \<Rightarrow> real" where
  "toDouble0 v \<equiv> toDouble v 0"

abbreviation toString0 :: "jvalue \<Rightarrow> string" where
  "toString0 v \<equiv> toString v []"

section \<open>Typed setters\<close>

text \<open>
  \<open>fromX\<close> overwrites the payload and returns whether the new value differs from the
  old one, together with the new payload.
\<close>

definition set_value :: "jvalue \<Rightarrow> jvalue \<Rightarrow> bool \<times> jvalue" where
  "set_value new old = (old \<noteq> new, new)"

definition fromBool :: "bool \<Rightarrow> jvalue \<Rightarrow> bool \<times> jvalue" where
  "fromBool b = set_value (JBool b)"

definition fromDouble :: "real \<Rightarrow> jvalue \<Rightarrow> bool \<times> jvalue" where
  "fromDouble x = set_value (JDouble x)"

definition fromString :: "string \<Rightarrow> jvalue \<Rightarrow> bool \<times> jvalue" where
  "fromString s = set_value (JString s)"

definition fromArray :: "aref \<Rightarrow> jvalue \<Rightarrow> bool \<times> jvalue" where
  "fromArray a = set_value (JArray a)"

definition fromObject :: "oref \<Rightarrow> jvalue \<Rightarrow> bool \<times> jvalue" where
  "fromObject ob = set_value (JObject ob)"

lemmas from_defs = fromBool_def fromDouble_def fromString_def fromArray_def
  fromObject_def set_value_def

section \<open>Properties of a value\<close>

text \<open>Exactly one kind predicate holds of every value.\<close>

definition kinds :: "jvalue \<Rightarrow> bool list" where
  "kinds v = [isNull v, isBool v, isDouble v, isString v, isArray v, isObject v]"

lemma exactly_one_kind: "length (filter id (kinds v)) = 1"
  by (cases v) (simp_all add: kinds_def)

lemma toBool_default: "\<not> isBool v \<Longrightarrow> toBool v d = d"
  by (cases v) simp_all

lemma toDouble_default: "\<not> isDouble v \<Longrightarrow> toDouble v d = d"
  by (cases v) simp_all

lemma toString_default: "\<not> isString v \<Longrightarrow> toString v d = d"
  by (cases v) simp_all

lemma toArray_default: "\<not> isArray v \<Longrightarrow> toArray v d = d"
  by (cases v) simp_all

lemma toObject_default: "\<not> isObject v \<Longrightarrow> toObject v d = d"
  by (cases v) simp_all

lemma isObject_iff: "isObject v \<longleftrightarrow> v = JObject (toObject v d)"
  by (cases v) simp_all

lemma isArray_iff: "isArray v \<longleftrightarrow> v = JArray (toArray v d)"
  by (cases v) simp_all

end
