(* ===== verification/JsonHeap.thy ===== *)
theory JsonHeap
  imports JsonValue
begin

text \<open>
  The store that \<open>QMPointer\<close> handles point into. Values are shared by reference
  counting in the library: a handle held by a caller and the same handle stored in a
  container denote one cell, and a write through either is seen through both. The heap
  makes that aliasing explicit: value cells, objects (\<open>QMJsonObject::mHash\<close>) and
  arrays are three stores indexed by handles, with one allocation limit. The heap also
  records the signals the objects emit (\<open>itemAdded\<close>, \<open>itemRemoved\<close>), in order,
  and the three function-local statics of the library: the shared "empty Null" value
  that \<open>QMJsonObject::value(key)\<close> returns for a missing key, and the empty array and
  object that \<open>QMJsonValue::toArray()\<close> and \<open>toObject()\<close> return on a kind mismatch.
  Reference counts and deallocation are not modelled: no operation of the object frees
  a cell that a handle can still reach.
\<close>

section \<open>Signals and the heap\<close>

datatype event = ItemAdded key vref | ItemRemoved key vref

record heap =
  vals :: "vref \<rightharpoonup> jvalue"
  objs :: "oref \<rightharpoonup> vref hash"
  arrs :: "aref \<rightharpoonup> vref list"
  lim :: nat
  signals :: "(oref \<times> event) list"
  null_default :: vref
  array_default :: aref
  object_default :: oref

section \<open>Reading and writing the stores\<close>

definition cell :: "heap \<Rightarrow> vref \<Rightarrow> jvalue" where
  "cell h r = (case vals h r of Some v \<Rightarrow> v | None \<Rightarrow> JNull)"

definition hash_of :: "heap \<Rightarrow> oref \<Rightarrow> vref hash" where
  "hash_of h t = (case objs h t of Some m \<Rightarrow> m | None \<Rightarrow> [])"

definition elems :: "heap \<Rightarrow> aref \<Rightarrow> vref list" where
  "elems h a = (case arrs h a of Some xs \<Rightarrow> xs | None \<Rightarrow> [])"

definition set_cell :: "vref \<Rightarrow> jvalue \<Rightarrow> heap \<Rightarrow> heap" where
  "set_cell r v h = h\<lparr>vals := (vals h)(r \<mapsto> v)\<rparr>"

definition set_hash :: "oref \<Rightarrow> vref hash \<Rightarrow> heap \<Rightarrow> heap" where
  "set_hash t m h = h\<lparr>objs := (objs h)(t \<mapsto> m)\<rparr>"

definition set_elems :: "aref \<Rightarrow> vref list \<Rightarrow> heap \<Rightarrow> heap" where
  "set_elems a xs h = h\<lparr>arrs := (arrs h)(a \<mapsto> xs)\<rparr>"

text \<open>\<open>emit\<close> delivers a signal synchronously: it is appended to the log.\<close>

definition emit :: "oref \<Rightarrow> event \<Rightarrow> heap \<Rightarrow> heap" where
  "emit t e h = h\<lparr>signals := signals h @ [(t, e)]\<rparr>"

text \<open>\<open>QMPointer<QMJsonValue>(new QMJsonValue)\<close>: a fresh cell holding Null.\<close>

definition new_value :: "heap \<Rightarrow> vref \<times> heap" where
  "new_value h = (lim h, h\<lparr>vals := (vals h)(lim h \<mapsto> JNull), lim := Suc (lim h)\<rparr>)"

lemma cell_set_cell [simp, heap_simps]:
  "cell (set_cell r v h) r' = (if r' = r then v else cell h r')"
  by (simp add: cell_def set_cell_def)

lemma hash_of_set_hash [simp, heap_simps]:
  "hash_of (set_hash t m h) t' = (if t' = t then m else hash_of h t')"
  by (simp add: hash_of_def set_hash_def)

lemma elems_set_elems [simp, heap_simps]:
  "elems (set_elems a xs h) a' = (if a' = a then xs else elems h a')"
  by (simp add: elems_def set_elems_def)

lemma frame_set_cell [simp, heap_simps]:
  "hash_of (set_cell r v h) = hash_of h" "elems (set_cell r v h) = elems h"
  "objs (set_cell r v h) = objs h" "arrs (set_cell r v h) = arrs h"
  "lim (set_cell r v h) = lim h" "signals (set_cell r v h) = signals h"
  "null_default (set_cell r v h) = null_default h"
  "array_default (set_cell r v h) = array_default h"
  "object_default (set_cell r v h) = object_default h"
  "vals (set_cell r v h) = (vals h)(r \<mapsto> v)"
  by (simp_all add: set_cell_def hash_of_def elems_def fun_eq_iff)

lemma frame_set_hash [simp, heap_simps]:
  "cell (set_hash t m h) = cell h" "elems (set_hash t m h) = elems h"
  "vals (set_hash t m h) = vals h" "arrs (set_hash t m h) = arrs h"
  "lim (set_hash t m h) = lim h" "signals (set_hash t m h) = signals h"
  "null_default (set_hash t m h) = null_default h"
  "array_default (set_hash t m h) = array_default h"
  "object_default (set_hash t m h) = object_default h"
  "objs (set_hash t m h) = (objs h)(t \<mapsto> m)"
  by (simp_all add: set_hash_def cell_def elems_def fun_eq_iff)

lemma frame_set_elems [simp, heap_simps]:
  "cell (set_elems a xs h) = cell h" "hash_of (set_elems a xs h) = hash_of h"
  "vals (set_elems a xs h) = vals h" "objs (set_elems a xs h) = objs h"
  "lim (set_elems a xs h) = lim h" "signals (set_elems a xs h) = signals h"
  "null_default (set_elems a xs h) = null_default h"
  "array_default (set_elems a xs h) = array_default h"
  "object_default (set_elems a xs h) = object_default h"
  "arrs (set_elems a xs h) = (arrs h)(a \<mapsto> xs)"
  by (simp_all add: set_elems_def cell_def hash_of_def fun_eq_iff)

lemma frame_emit [simp, heap_simps]:
  "cell (emit t e h) = cell h" "hash_of (emit t e h) = hash_of h"
  "elems (emit t e h) = elems h"
  "vals (emit t e h) = vals h" "objs (emit t e h) = objs h" "arrs (emit t e h) = arrs h"
  "lim (emit t e h) = lim h" "signals (emit t e h) = signals h @ [(t, e)]"
  "null_default (emit t e h) = null_default h"
  "array_default (emit t e h) = array_default h"
  "object_default (emit t e h) = object_default h"
  by (simp_all add: emit_def cell_def hash_of_def elems_def fun_eq_iff)

lemma frame_new_value [simp, heap_simps]:
  "fst (new_value h) = lim h"
  "cell (snd (new_value h)) r = (if r = lim h then JNull else cell h r)"
  "hash_of (snd (new_value h)) = hash_of h" "elems (snd (new_value h)) = elems h"
  "vals (snd (new_value h)) = (vals h)(lim h \<mapsto> JNull)"
  "objs (snd (new_value h)) = objs h" "arrs (snd (new_value h)) = arrs h"
  "lim (snd (new_value h)) = Suc (lim h)" "signals (snd (new_value h)) = signals h"
  "null_default (snd (new_value h)) = null_default h"
  "array_default (snd (new_value h)) = array_default h"
  "object_default (snd (new_value h)) = object_default h"
  by (simp_all add: new_value_def cell_def hash_of_def elems_def fun_eq_iff)

section \<open>Well-formed heaps\<close>

text \<open>
  A heap is well formed when every allocated address lies below the limit, the three
  statics are allocated, every hash has distinct keys and points to allocated cells,
  every array points to allocated cells, and every array or object payload points to
  an allocated container. These are the facts that C++ guarantees by construction
  (a \<open>QHash\<close> has unique keys, a live \<open>QMPointer\<close> is never dangling).
\<close>

fun payload_ok :: "heap \<Rightarrow> jvalue \<Rightarrow> bool" where
  "payload_ok h (JArray a) = (a \<in> dom (arrs h))"
| "payload_ok h (JObject t) = (t \<in> dom (objs h))"
| "payload_ok h _ = True"

definition bounded :: "heap \<Rightarrow> bool" where
  "bounded h \<longleftrightarrow>
     (\<forall>r \<in> dom (vals h). r < lim h) \<and> (\<forall>t \<in> dom (objs h). t < lim h) \<and>
     (\<forall>a \<in> dom (arrs h). a < lim h)"

definition statics_ok :: "heap \<Rightarrow> bool" where
  "statics_ok h \<longleftrightarrow>
     null_default h \<in> dom (vals h) \<and> array_default h \<in> dom (arrs h) \<and>
     object_default h \<in> dom (objs h)"

definition hashes_ok :: "heap \<Rightarrow> bool" where
  "hashes_ok h \<longleftrightarrow>
     (\<forall>t \<in> dom (objs h). hash_ok (hash_of h t) \<and> set (map snd (hash_of h t)) \<subseteq> dom (vals h))"

definition arrays_ok :: "heap \<Rightarrow> bool" where
  "arrays_ok h \<longleftrightarrow> (\<forall>a \<in> dom (arrs h). set (elems h a) \<subseteq> dom (vals h))"

definition payloads_ok :: "heap \<Rightarrow> bool" where
  "payloads_ok h \<longleftrightarrow> (\<forall>r \<in> dom (vals h). payload_ok h (cell h r))"

definition heap_wf :: "heap \<Rightarrow> bool" where
  "heap_wf h \<longleftrightarrow> bounded h \<and> statics_ok h \<and> hashes_ok h \<and> arrays_ok h \<and> payloads_ok h"

lemma payload_ok_cong:
  "objs h' = objs h \<Longrightarrow> arrs h' = arrs h \<Longrightarrow> payload_ok h' v = payload_ok h v"
  by (cases v) simp_all

lemma heap_wf_emit [simp]: "heap_wf (emit t e h) = heap_wf h"
proof -
  have "payload_ok (emit t e h) v = payload_ok h v" for v
    by (rule payload_ok_cong) simp_all
  then show ?thesis
    by (simp add: heap_wf_def bounded_def statics_ok_def hashes_ok_def arrays_ok_def payloads_ok_def)
qed

lemma heap_wf_set_hash:
  assumes wf: "heap_wf h" and t: "t \<in> dom (objs h)"
    and m: "hash_ok m" "set (map snd m) \<subseteq> dom (vals h)"
  shows "heap_wf (set_hash t m h)"
proof -
  let ?h = "set_hash t m h"
  have pl: "payload_ok ?h v = payload_ok h v" for v
    using t by (cases v) auto
  from wf have "bounded ?h" by (simp add: heap_wf_def bounded_def insert_absorb [OF t])
  moreover from wf have "statics_ok ?h" by (simp add: heap_wf_def statics_ok_def insert_absorb [OF t])
  moreover from wf m have "hashes_ok ?h" by (simp add: heap_wf_def hashes_ok_def insert_absorb [OF t])
  moreover from wf have "arrays_ok ?h" by (simp add: heap_wf_def arrays_ok_def)
  moreover from wf have "payloads_ok ?h" by (simp add: heap_wf_def payloads_ok_def pl)
  ultimately show ?thesis by (simp add: heap_wf_def)
qed

lemma heap_wf_new_value:
  assumes wf: "heap_wf h"
  shows "heap_wf (snd (new_value h))" and "lim h \<notin> dom (vals h)"
proof -
  let ?h = "snd (new_value h)"
  from wf show fresh: "lim h \<notin> dom (vals h)" by (auto simp: heap_wf_def bounded_def)
  have pl: "payload_ok ?h v = payload_ok h v" for v
    by (rule payload_ok_cong) simp_all
  from wf have "bounded ?h" by (auto simp: heap_wf_def bounded_def less_Suc_eq)
  moreover from wf have "statics_ok ?h" by (simp add: heap_wf_def statics_ok_def)
  moreover from wf have "hashes_ok ?h" by (auto simp: heap_wf_def hashes_ok_def)
  moreover from wf have "arrays_ok ?h" by (auto simp: heap_wf_def arrays_ok_def)
  moreover from wf have "payloads_ok ?h" by (simp add: heap_wf_def payloads_ok_def pl)
  ultimately show "heap_wf ?h" by (simp add: heap_wf_def)
qed

lemma heap_wf_set_cell:
  assumes wf: "heap_wf h" and r: "r \<in> dom (vals h)" and v: "payload_ok h v"
  shows "heap_wf (set_cell r v h)"
proof -
  let ?h = "set_cell r v h"
  have pl: "payload_ok ?h w = payload_ok h w" for w
    by (rule payload_ok_cong) simp_all
  from wf have "bounded ?h" by (simp add: heap_wf_def bounded_def insert_absorb [OF r])
  moreover from wf have "statics_ok ?h" by (simp add: heap_wf_def statics_ok_def insert_absorb [OF r])
  moreover from wf have "hashes_ok ?h" by (simp add: heap_wf_def hashes_ok_def insert_absorb [OF r])
  moreover from wf have "arrays_ok ?h" by (simp add: heap_wf_def arrays_ok_def insert_absorb [OF r])
  moreover from wf v have "payloads_ok ?h" by (simp add: heap_wf_def payloads_ok_def pl insert_absorb [OF r])
  ultimately show ?thesis by (simp add: heap_wf_def)
qed

lemma heap_wf_set_elems:
  assumes wf: "heap_wf h" and a: "a \<in> dom (arrs h)" and xs: "set xs \<subseteq> dom (vals h)"
  shows "heap_wf (set_elems a xs h)"
proof -
  let ?h = "set_elems a xs h"
  have pl: "payload_ok ?h v = payload_ok h v" for v
    using a by (cases v) auto
  from wf have "bounded ?h" by (simp add: heap_wf_def bounded_def insert_absorb [OF a])
  moreover from wf have "statics_ok ?h" by (simp add: heap_wf_def statics_ok_def insert_absorb [OF a])
  moreover from wf have "hashes_ok ?h" by (simp add: heap_wf_def hashes_ok_def)
  moreover from wf xs have "arrays_ok ?h" by (simp add: heap_wf_def arrays_ok_def insert_absorb [OF a])
  moreover from wf have "payloads_ok ?h" by (simp add: heap_wf_def payloads_ok_def pl)
  ultimately show ?thesis by (simp add: heap_wf_def)
qed

lemma heap_wf_hash_ok:
  "heap_wf h \<Longrightarrow> t \<in> dom (objs h) \<Longrightarrow> hash_ok (hash_of h t)"
  by (simp add: heap_wf_def hashes_ok_def)

lemma heap_wf_hash_vals:
  "heap_wf h \<Longrightarrow> t \<in> dom (objs h) \<Longrightarrow> set (map snd (hash_of h t)) \<subseteq> dom (vals h)"
  by (simp add: heap_wf_def hashes_ok_def)

lemma heap_wf_hash_val:
  assumes "heap_wf h" "t \<in> dom (objs h)" "map_of (hash_of h t) k = Some r"
  shows "r \<in> dom (vals h)"
proof -
  from assms(3) have "r \<in> set (map snd (hash_of h t))" by (rule map_of_in_values)
  with assms(1,2) show ?thesis by (auto simp: heap_wf_def hashes_ok_def)
qed

lemma heap_wf_statics:
  "heap_wf h \<Longrightarrow> null_default h \<in> dom (vals h)"
  "heap_wf h \<Longrightarrow> array_default h \<in> dom (arrs h)"
  "heap_wf h \<Longrightarrow> object_default h \<in> dom (objs h)"
  by (simp_all add: heap_wf_def statics_ok_def)

end
