(* ===== verification/JsonObject.thy ===== *)
theory JsonObject
  imports JsonHeap
begin

text \<open>
  \<open>QMJsonObject\<close> (src/src/core/qmjsonobject.cpp): the container operations on one
  object, each a function of the object's handle \<open>t\<close> and the heap. The object's
  \<open>mHash\<close> is \<open>hash_of h t\<close>; a mutating method returns the new heap, a getter
  the value it returns (with the heap when it also mutates). \<open>reserve\<close>,
  \<open>capacity\<close> and \<open>squeeze\<close> are capacity hints of \<open>QHash\<close> with no effect on the
  contents and are not modelled; neither are the \<open>QDebug\<close> printers.
\<close>

section \<open>Replacement policy\<close>

text \<open>\<open>QMJsonReplacementPolicy_Replace\<close> and \<open>QMJsonReplacementPolicy_Ignore\<close>.\<close>

datatype replacement_policy = Replace | Ignore

section \<open>Queries\<close>

definition count_obj :: "oref \<Rightarrow> heap \<Rightarrow> nat" where
  "count_obj t h = length (hash_of h t)"

definition isEmpty_obj :: "oref \<Rightarrow> heap \<Rightarrow> bool" where
  "isEmpty_obj t h \<longleftrightarrow> hash_of h t = []"

definition contains_obj :: "oref \<Rightarrow> key \<Rightarrow> heap \<Rightarrow> bool" where
  "contains_obj t k h \<longleftrightarrow> map_of (hash_of h t) k \<noteq> None"

section \<open>Erase, insert, remove, take\<close>

text \<open>
  \<open>erase(iter)\<close> removes the entry the iterator points to and emits
  \<open>itemRemoved(key, value)\<close> of that entry.
\<close>

definition erase_obj :: "oref \<Rightarrow> key \<times> vref \<Rightarrow> heap \<Rightarrow> heap" where
  "erase_obj t it h =
     emit t (ItemRemoved (fst it) (snd it)) (set_hash t (AList.delete (fst it) (hash_of h t)) h)"

text \<open>\<open>mHash.insert(key, value); emit itemAdded(key, value);\<close> for a key not present.\<close>

definition store_obj :: "oref \<Rightarrow> key \<Rightarrow> vref \<Rightarrow> heap \<Rightarrow> heap" where
  "store_obj t k r h = emit t (ItemAdded k r) (set_hash t (AList.update k r (hash_of h t)) h)"

text \<open>
  The tail of \<open>insert\<close>: a null handle (\<open>None\<close>) is replaced by a fresh Null value.
\<close>

definition add_obj :: "oref \<Rightarrow> key \<Rightarrow> vref option \<Rightarrow> heap \<Rightarrow> heap" where
  "add_obj t k val h =
     (case val of
        None \<Rightarrow> (let (r, h') = new_value h in store_obj t k r h')
      | Some r \<Rightarrow> store_obj t k r h)"

definition insert_obj ::
  "oref \<Rightarrow> key \<Rightarrow> vref option \<Rightarrow> replacement_policy \<Rightarrow> heap \<Rightarrow> heap" where
  "insert_obj t k val policy h =
     (if k = [] then h
      else case map_of (hash_of h t) k of
             None \<Rightarrow> add_obj t k val h
           | Some v \<Rightarrow>
               (case policy of
                  Replace \<Rightarrow> add_obj t k val (erase_obj t (k, v) h)
                | Ignore \<Rightarrow> h))"

definition remove_obj :: "oref \<Rightarrow> key \<Rightarrow> heap \<Rightarrow> heap" where
  "remove_obj t k h =
     (case map_of (hash_of h t) k of
        None \<Rightarrow> h
      | Some v \<Rightarrow> erase_obj t (k, v) h)"

definition take_obj :: "oref \<Rightarrow> key \<Rightarrow> heap \<Rightarrow> vref \<times> heap" where
  "take_obj t k h =
     (case map_of (hash_of h t) k of
        None \<Rightarrow> new_value h
      | Some v \<Rightarrow> (v, erase_obj t (k, v) h))"

definition take_dflt_obj :: "oref \<Rightarrow> key \<Rightarrow> vref \<Rightarrow> heap \<Rightarrow> vref \<times> heap" where
  "take_dflt_obj t k d h =
     (case map_of (hash_of h t) k of
        None \<Rightarrow> (d, h)
      | Some v \<Rightarrow> (v, erase_obj t (k, v) h))"

section \<open>Lookup\<close>

text \<open>
  \<open>QHash::key(value, defaultKey)\<close>: the first key, in iteration order, whose handle
  is \<open>value\<close> (handle identity, not structural equality).
\<close>

definition hash_key :: "vref hash \<Rightarrow> vref \<Rightarrow> key \<Rightarrow> key" where
  "hash_key m r d = (case find (\<lambda>p. snd p = r) m of None \<Rightarrow> d | Some p \<Rightarrow> fst p)"

definition key_obj :: "oref \<Rightarrow> vref \<Rightarrow> heap \<Rightarrow> key" where
  "key_obj t r h = hash_key (hash_of h t) r []"

definition key_dflt_obj :: "oref \<Rightarrow> vref \<Rightarrow> key \<Rightarrow> heap \<Rightarrow> key" where
  "key_dflt_obj t r d h = hash_key (hash_of h t) r d"

text \<open>\<open>value(key)\<close>: a missing key yields the shared static \<open>defaultValue\<close>.\<close>

definition value_obj :: "oref \<Rightarrow> key \<Rightarrow> heap \<Rightarrow> vref" where
  "value_obj t k h = (case map_of (hash_of h t) k of None \<Rightarrow> null_default h | Some v \<Rightarrow> v)"

definition value_dflt_obj :: "oref \<Rightarrow> key \<Rightarrow> vref \<Rightarrow> heap \<Rightarrow> vref" where
  "value_dflt_obj t k d h = (case map_of (hash_of h t) k of None \<Rightarrow> d | Some v \<Rightarrow> v)"

definition keys_obj :: "oref \<Rightarrow> heap \<Rightarrow> key list" where
  "keys_obj t h = map fst (hash_of h t)"

definition values_obj :: "oref \<Rightarrow> heap \<Rightarrow> vref list" where
  "values_obj t h = map snd (hash_of h t)"

section \<open>Typed accessors\<close>

text \<open>\<open>isX(key)\<close>: false for a missing key, else the kind test of the stored value.\<close>

definition test_obj :: "(jvalue \<Rightarrow> bool) \<Rightarrow> oref \<Rightarrow> key \<Rightarrow> heap \<Rightarrow> bool" where
  "test_obj P t k h = (case map_of (hash_of h t) k of None \<Rightarrow> False | Some r \<Rightarrow> P (cell h r))"

definition isNull_obj :: "oref \<Rightarrow> key \<Rightarrow> heap \<Rightarrow> bool" where
  "isNull_obj = test_obj isNull"

definition isBool_obj :: "oref \<Rightarrow> key \<Rightarrow> heap \<Rightarrow> bool" where
  "isBool_obj = test_obj isBool"

definition isDouble_obj :: "oref \<Rightarrow> key \<Rightarrow> heap \<Rightarrow> bool" where
  "isDouble_obj = test_obj isDouble"

definition isString_obj :: "oref \<Rightarrow> key \<Rightarrow> heap \<Rightarrow> bool" where
  "isString_obj = test_obj isString"

definition isArray_obj :: "oref \<Rightarrow> key \<Rightarrow> heap \<Rightarrow> bool" where
  "isArray_obj = test_obj isArray"

definition isObject_obj :: "oref \<Rightarrow> key \<Rightarrow> heap \<Rightarrow> bool" where
  "isObject_obj = test_obj isObject"

text \<open>
  \<open>toX(key)\<close> and \<open>toX(key, default)\<close> read the value that \<open>value(key)\<close> returns,
  the shared static for a missing key.
\<close>

definition toBool_obj :: "oref \<Rightarrow> key \<Rightarrow> heap \<Rightarrow> bool" where
  "toBool_obj t k h = toBool (cell h (value_obj t k h)) False"

definition toDouble_obj :: "oref \<Rightarrow> key \<Rightarrow> heap \<Rightarrow> real" where
  "toDouble_obj t k h = toDouble (cell h (value_obj t k h)) 0"

definition toString_obj :: "oref \<Rightarrow> key \<Rightarrow> heap \<Rightarrow> string" where
  "toString_obj t k h = toString (cell h (value_obj t k h)) []"

definition toArray_obj :: "oref \<Rightarrow> key \<Rightarrow> heap \<Rightarrow> aref" where
  "toArray_obj t k h = toArray (cell h (value_obj t k h)) (array_default h)"

definition toObject_obj :: "oref \<Rightarrow> key \<Rightarrow> heap \<Rightarrow> oref" where
  "toObject_obj t k h = toObject (cell h (value_obj t k h)) (object_default h)"

definition toBool_dflt_obj :: "oref \<Rightarrow> key \<Rightarrow> bool \<Rightarrow> heap \<Rightarrow> bool" where
  "toBool_dflt_obj t k d h = toBool (cell h (value_obj t k h)) d"

definition toDouble_dflt_obj :: "oref \<Rightarrow> key \<Rightarrow> real \<Rightarrow> heap \<Rightarrow> real" where
  "toDouble_dflt_obj t k d h = toDouble (cell h (value_obj t k h)) d"

definition toString_dflt_obj :: "oref \<Rightarrow> key \<Rightarrow> string \<Rightarrow> heap \<Rightarrow> string" where
  "toString_dflt_obj t k d h = toString (cell h (value_obj t k h)) d"

definition toArray_dflt_obj :: "oref \<Rightarrow> key \<Rightarrow> aref \<Rightarrow> heap \<Rightarrow> aref" where
  "toArray_dflt_obj t k d h = toArray (cell h (value_obj t k h)) d"

definition toObject_dflt_obj :: "oref \<Rightarrow> key \<Rightarrow> oref \<Rightarrow> heap \<Rightarrow> oref" where
  "toObject_dflt_obj t k d h = toObject (cell h (value_obj t k h)) d"

text \<open>
  \<open>fromX(key, v)\<close>: \<open>this->value(key)->fromX(v)\<close>. The setter writes the cell that
  \<open>value(key)\<close> returns, which for a missing key is the shared static.
\<close>

definition from_obj :: "(jvalue \<Rightarrow> bool \<times> jvalue) \<Rightarrow> oref \<Rightarrow> key \<Rightarrow> heap \<Rightarrow> bool \<times> heap" where
  "from_obj f t k h =
     (let r = value_obj t k h; (changed, v) = f (cell h r) in (changed, set_cell r v h))"

definition fromBool_obj :: "oref \<Rightarrow> key \<Rightarrow> bool \<Rightarrow> heap \<Rightarrow> bool \<times> heap" where
  "fromBool_obj t k b = from_obj (fromBool b) t k"

definition fromDouble_obj :: "oref \<Rightarrow> key \<Rightarrow> real \<Rightarrow> heap \<Rightarrow> bool \<times> heap" where
  "fromDouble_obj t k x = from_obj (fromDouble x) t k"

definition fromString_obj :: "oref \<Rightarrow> key \<Rightarrow> string \<Rightarrow> heap \<Rightarrow> bool \<times> heap" where
  "fromString_obj t k s = from_obj (fromString s) t k"

definition fromArray_obj :: "oref \<Rightarrow> key \<Rightarrow> aref \<Rightarrow> heap \<Rightarrow> bool \<times> heap" where
  "fromArray_obj t k a = from_obj (fromArray a) t k"

definition fromObject_obj :: "oref \<Rightarrow> key \<Rightarrow> oref \<Rightarrow> heap \<Rightarrow> bool \<times> heap" where
  "fromObject_obj t k ob = from_obj (fromObject ob) t k"


section \<open>A sample heap\<close>

text \<open>
  The statics at 0 (Null), 1 (empty array) and 2 (empty object); an object 3 with
  \<open>{"x": 1.0, "y": true}\<close> and an object 6 with \<open>{"z": true}\<close> whose entry is the same
  handle 5 as 3's \<open>"y"\<close>. The witnesses below evaluate the theorems on it.
\<close>

definition sample_heap :: heap where
  "sample_heap =
     \<lparr>vals = [0 \<mapsto> JNull, 4 \<mapsto> JDouble 1, 5 \<mapsto> JBool True],
      objs = [2 \<mapsto> [], 3 \<mapsto> [(''x'', 4), (''y'', 5)], 6 \<mapsto> [(''z'', 5)]],
      arrs = [1 \<mapsto> []], lim = 7, signals = [],
      null_default = 0, array_default = 1, object_default = 2\<rparr>"

section \<open>Effects of the primitive steps\<close>

lemma erase_obj_simps [simp, heap_simps]:
  "hash_of (erase_obj t (k, v) h) t' = (if t' = t then AList.delete k (hash_of h t) else hash_of h t')"
  "signals (erase_obj t (k, v) h) = signals h @ [(t, ItemRemoved k v)]"
  "cell (erase_obj t (k, v) h) = cell h" "vals (erase_obj t (k, v) h) = vals h"
  "elems (erase_obj t (k, v) h) = elems h" "arrs (erase_obj t (k, v) h) = arrs h"
  "lim (erase_obj t (k, v) h) = lim h"
  "null_default (erase_obj t (k, v) h) = null_default h"
  "array_default (erase_obj t (k, v) h) = array_default h"
  "object_default (erase_obj t (k, v) h) = object_default h"
  "objs (erase_obj t (k, v) h) = (objs h)(t \<mapsto> AList.delete k (hash_of h t))"
  by (simp_all add: erase_obj_def)

lemma store_obj_simps [simp, heap_simps]:
  "hash_of (store_obj t k r h) t' = (if t' = t then AList.update k r (hash_of h t) else hash_of h t')"
  "signals (store_obj t k r h) = signals h @ [(t, ItemAdded k r)]"
  "cell (store_obj t k r h) = cell h" "vals (store_obj t k r h) = vals h"
  "elems (store_obj t k r h) = elems h" "arrs (store_obj t k r h) = arrs h"
  "lim (store_obj t k r h) = lim h"
  "null_default (store_obj t k r h) = null_default h"
  "array_default (store_obj t k r h) = array_default h"
  "object_default (store_obj t k r h) = object_default h"
  "objs (store_obj t k r h) = (objs h)(t \<mapsto> AList.update k r (hash_of h t))"
  by (simp_all add: store_obj_def)

lemma add_obj_Some [simp]: "add_obj t k (Some r) h = store_obj t k r h"
  by (simp add: add_obj_def)

lemma add_obj_None [simp]: "add_obj t k None h = store_obj t k (lim h) (snd (new_value h))"
  by (simp add: add_obj_def new_value_def)

section \<open>insert\<close>

lemma insert_obj_empty_key: "insert_obj t [] val policy h = h"
  by (simp add: insert_obj_def)

text \<open>C6: \<open>insert(key, value, Ignore)\<close> on a present key changes nothing and emits nothing.\<close>

lemma insert_obj_ignore:
  "map_of (hash_of h t) k = Some v \<Longrightarrow> insert_obj t k val Ignore h = h"
  by (simp add: insert_obj_def)

text \<open>C5: \<open>insert(key, value, Replace)\<close> on a present key stores the new handle, emits \<open>itemRemoved\<close> of the old entry and then \<open>itemAdded\<close> of the new one, and touches no value cell and no other object.\<close>

lemma insert_obj_replace:
  assumes "k \<noteq> []" and "map_of (hash_of h t) k = Some v1"
  shows "map_of (hash_of (insert_obj t k (Some v2) Replace h) t) = (map_of (hash_of h t))(k \<mapsto> v2)
    \<and> signals (insert_obj t k (Some v2) Replace h)
        = signals h @ [(t, ItemRemoved k v1), (t, ItemAdded k v2)]
    \<and> vals (insert_obj t k (Some v2) Replace h) = vals h
    \<and> (\<forall>t'. t' \<noteq> t \<longrightarrow> hash_of (insert_obj t k (Some v2) Replace h) t' = hash_of h t')"
  using assms by (simp add: insert_obj_def delete_conv')

text \<open>C7: \<open>insert\<close> of an absent non-empty key appends the entry, adds one to \<open>count()\<close> and emits exactly one \<open>itemAdded\<close>, whatever the policy.\<close>

lemma insert_obj_new:
  assumes "k \<noteq> []" and "map_of (hash_of h t) k = None"
  shows "hash_of (insert_obj t k (Some r) policy h) t = hash_of h t @ [(k, r)]
    \<and> count_obj t (insert_obj t k (Some r) policy h) = Suc (count_obj t h)
    \<and> signals (insert_obj t k (Some r) policy h) = signals h @ [(t, ItemAdded k r)]"
  using assms by (simp add: insert_obj_def count_obj_def)

text \<open>C8: inserting a null handle stores a freshly allocated Null value instead of the null handle.\<close>

lemma insert_obj_null:
  assumes "heap_wf h" and "k \<noteq> []"
    and "map_of (hash_of h t) k = None \<or> policy = Replace"
  shows "value_obj t k (insert_obj t k None policy h) \<notin> dom (vals h)
    \<and> cell (insert_obj t k None policy h) (value_obj t k (insert_obj t k None policy h)) = JNull"
  using assms(3) heap_wf_new_value(2) [OF assms(1)] assms(2)
  by (auto simp: insert_obj_def value_obj_def split: option.splits)

section \<open>remove and take\<close>

text \<open>C11: \<open>remove\<close> of an absent key is a no-op: no mutation and no notification.\<close>

lemma remove_obj_absent: "map_of (hash_of h t) k = None \<Longrightarrow> remove_obj t k h = h"
  by (simp add: remove_obj_def)

text \<open>C10: \<open>remove\<close> of a present key erases exactly that key, lowers \<open>count()\<close> by one and emits one \<open>itemRemoved\<close> with the removed handle.\<close>

lemma remove_obj_present:
  assumes "hash_ok (hash_of h t)" and "map_of (hash_of h t) k = Some v"
  shows "map_of (hash_of (remove_obj t k h) t) = (map_of (hash_of h t))(k := None)
    \<and> count_obj t (remove_obj t k h) = count_obj t h - 1
    \<and> signals (remove_obj t k h) = signals h @ [(t, ItemRemoved k v)]"
  using assms by (simp add: remove_obj_def count_obj_def delete_conv' length_delete_present)

text \<open>C13: \<open>take(key)\<close> of an absent key returns a freshly allocated Null value and neither mutates the object nor notifies.\<close>

lemma take_obj_absent:
  assumes "heap_wf h" and "map_of (hash_of h t) k = None"
  shows "fst (take_obj t k h) \<notin> dom (vals h)
    \<and> cell (snd (take_obj t k h)) (fst (take_obj t k h)) = JNull
    \<and> hash_of (snd (take_obj t k h)) = hash_of h
    \<and> signals (snd (take_obj t k h)) = signals h"
  using assms heap_wf_new_value(2) [OF assms(1)] by (simp add: take_obj_def)

text \<open>C12: \<open>take(key)\<close> of a present key returns the stored handle and has the effect of \<open>remove(key)\<close>.\<close>

lemma take_obj_present:
  assumes "map_of (hash_of h t) k = Some v"
  shows "take_obj t k h = (v, remove_obj t k h)"
  using assms by (simp add: take_obj_def remove_obj_def)

text \<open>C14: \<open>take(key, default)\<close> of an absent key returns the default unchanged and does not touch the heap.\<close>

lemma take_dflt_obj_absent:
  "map_of (hash_of h t) k = None \<Longrightarrow> take_dflt_obj t k d h = (d, h)"
  by (simp add: take_dflt_obj_def)

lemma take_dflt_obj_present:
  "map_of (hash_of h t) k = Some v \<Longrightarrow> take_dflt_obj t k d h = (v, remove_obj t k h)"
  by (simp add: take_dflt_obj_def remove_obj_def)


section \<open>Lookup\<close>

lemma hash_key_missing: "r \<notin> set (map snd m) \<Longrightarrow> hash_key m r d = d"
  by (induction m) (auto simp: hash_key_def)

lemma key_dflt_obj_missing:
  "r \<notin> set (values_obj t h) \<Longrightarrow> key_dflt_obj t r d h = d"
  by (simp add: key_dflt_obj_def values_obj_def hash_key_missing)

lemma value_obj_missing:
  "map_of (hash_of h t) k = None \<Longrightarrow> value_obj t k h = null_default h"
  by (simp add: value_obj_def)

lemma value_dflt_obj_missing:
  "map_of (hash_of h t) k = None \<Longrightarrow> value_dflt_obj t k d h = d"
  by (simp add: value_dflt_obj_def)

lemma test_obj_missing:
  "map_of (hash_of h t) k = None \<Longrightarrow> test_obj P t k h = False"
  by (simp add: test_obj_def)

section \<open>Typed getters and setters\<close>

text \<open>
  \<open>toDouble(key, default)\<close> returns the stored number when the key holds one, and the
  default otherwise, as long as the shared static is not a number.
\<close>

text \<open>C16: \<open>toDouble(key, d)\<close> returns the stored number when the key holds a number and \<open>d\<close> otherwise, absent key included, provided the shared static is not a number.\<close>

lemma toDouble_dflt_obj_spec:
  assumes "\<not> isDouble (cell h (null_default h))"
  shows "toDouble_dflt_obj t k d h =
           (case map_of (hash_of h t) k of
              Some r \<Rightarrow> (if isDouble_obj t k h then toDouble (cell h r) 0 else d)
            | None \<Rightarrow> d)"
proof (cases "map_of (hash_of h t) k")
  case None
  with assms show ?thesis by (simp add: toDouble_dflt_obj_def value_obj_def toDouble_default)
next
  case (Some r)
  then show ?thesis
    by (cases "cell h r") (simp_all add: toDouble_dflt_obj_def value_obj_def isDouble_obj_def test_obj_def)
qed

lemma from_obj_unfold:
  "from_obj f t k h =
     (fst (f (cell h (value_obj t k h))),
      set_cell (value_obj t k h) (snd (f (cell h (value_obj t k h)))) h)"
  by (simp add: from_obj_def Let_def split: prod.splits)

lemma from_obj_present:
  assumes "map_of (hash_of h t) k = Some r"
  shows "from_obj f t k h = (fst (f (cell h r)), set_cell r (snd (f (cell h r))) h)"
  using assms by (simp add: from_obj_unfold value_obj_def)

lemma from_obj_missing:
  assumes "map_of (hash_of h t) k = None"
  shows "from_obj f t k h =
           (fst (f (cell h (null_default h))),
            set_cell (null_default h) (snd (f (cell h (null_default h)))) h)"
  using assms by (simp add: from_obj_unfold value_obj_def)

text \<open>
  Writing through one handle is seen through every container that holds it.
\<close>

text \<open>C18: a write through \<open>fromBool(key, b)\<close> is seen through every container that stores the same handle, and the result says whether the value changed.\<close>

lemma fromBool_obj_alias:
  assumes "map_of (hash_of h t) k = Some r" and "map_of (hash_of h t') k' = Some r"
  shows "toBool_obj t' k' (snd (fromBool_obj t k b h)) = b
    \<and> fst (fromBool_obj t k b h) = (cell h r \<noteq> JBool b)"
  using assms
  by (simp add: fromBool_obj_def from_obj_present fromBool_def set_value_def
      toBool_obj_def value_obj_def)

text \<open>
  \<open>fromDouble(key, x)\<close> on a missing key adds no key: it writes the shared static,
  and from then on \<open>toDouble(k', d)\<close> of every object returns \<open>x\<close> for every missing
  key \<open>k'\<close>, whatever the default.
\<close>

text \<open>C17: \<open>fromDouble(key, x)\<close> on an absent key adds no key; it writes the shared static, after which \<open>toDouble(k, d)\<close> returns \<open>x\<close> for every absent key of every object.\<close>

lemma fromDouble_obj_missing:
  assumes "map_of (hash_of h t) k = None"
  shows "hash_of (snd (fromDouble_obj t k x h)) = hash_of h
    \<and> (\<forall>t' k'. map_of (hash_of h t') k' = None \<longrightarrow>
         toDouble_dflt_obj t' k' d (snd (fromDouble_obj t k x h)) = x)"
  using assms
  by (simp add: fromDouble_obj_def from_obj_missing fromDouble_def set_value_def
      toDouble_dflt_obj_def value_obj_def)

text \<open>C9: after \<open>insert(key, v)\<close> with a non-empty key that was absent, or under
  \<open>Replace\<close>, \<open>value(key)\<close> returns \<open>v\<close>.\<close>

lemma insert_value_roundtrip:
  assumes "k \<noteq> []" and "map_of (hash_of h t) k = None \<or> policy = Replace"
  shows "value_obj t k (insert_obj t k (Some r) policy h) = r"
  using assms by (auto simp: insert_obj_def value_obj_def delete_conv' split: option.splits)

text \<open>C15: for a present key exactly one of \<open>isNull(key)\<close> \<dots> \<open>isObject(key)\<close> holds;
  for an absent key none does.\<close>

lemma kind_tests_exclusive:
  "length (filter id [isNull_obj t k h, isBool_obj t k h, isDouble_obj t k h,
      isString_obj t k h, isArray_obj t k h, isObject_obj t k h])
   = (if contains_obj t k h then 1 else 0)"
proof (cases "map_of (hash_of h t) k")
  case None
  then show ?thesis
    by (simp add: contains_obj_def isNull_obj_def isBool_obj_def isDouble_obj_def
        isString_obj_def isArray_obj_def isObject_obj_def test_obj_def)
next
  case (Some r)
  then show ?thesis
    by (cases "cell h r") (simp_all add: contains_obj_def isNull_obj_def isBool_obj_def
        isDouble_obj_def isString_obj_def isArray_obj_def isObject_obj_def test_obj_def)
qed

section \<open>Witnesses on the sample heap\<close>

lemma sample_heap_facts:
  "heap_wf sample_heap" "3 \<in> dom (objs sample_heap)"
  "map_of (hash_of sample_heap 3) ''x'' = Some 4" "map_of (hash_of sample_heap 3) ''y'' = Some 5"
  "map_of (hash_of sample_heap 3) ''w'' = None" "map_of (hash_of sample_heap 6) ''z'' = Some 5"
  "hash_ok (hash_of sample_heap 3)" "4 \<in> dom (vals sample_heap)" "5 \<notin> set (values_obj 6 sample_heap) \<Longrightarrow> False"
  "\<not> isDouble (cell sample_heap (null_default sample_heap))"
  by (auto simp: sample_heap_def heap_wf_def bounded_def statics_ok_def hashes_ok_def
      arrays_ok_def payloads_ok_def hash_of_def cell_def elems_def hash_ok_def values_obj_def)

lemma insert_obj_replace_witness:
  "''x'' \<noteq> [] \<and> map_of (hash_of sample_heap 3) ''x'' = Some 4
   \<and> signals (insert_obj 3 ''x'' (Some 5) Replace sample_heap)
       = [(3, ItemRemoved ''x'' 4), (3, ItemAdded ''x'' 5)]"
  using insert_obj_replace [OF _ sample_heap_facts(3), of 5] sample_heap_facts(3)
  by (simp add: sample_heap_def)

lemma insert_obj_ignore_witness:
  "map_of (hash_of sample_heap 3) ''x'' = Some 4
   \<and> insert_obj 3 ''x'' (Some 5) Ignore sample_heap = sample_heap"
  using insert_obj_ignore [OF sample_heap_facts(3)] sample_heap_facts(3) by blast

lemma insert_obj_new_witness:
  "''w'' \<noteq> [] \<and> map_of (hash_of sample_heap 3) ''w'' = None
   \<and> count_obj 3 (insert_obj 3 ''w'' (Some 4) Ignore sample_heap) = 3"
  using insert_obj_new [OF _ sample_heap_facts(5), of 4 Ignore] sample_heap_facts(5)
  by (simp add: count_obj_def sample_heap_def hash_of_def)

lemma insert_obj_null_witness:
  "heap_wf sample_heap \<and> ''w'' \<noteq> []
   \<and> (map_of (hash_of sample_heap 3) ''w'' = None \<or> Ignore = Replace)
   \<and> cell (insert_obj 3 ''w'' None Ignore sample_heap)
        (value_obj 3 ''w'' (insert_obj 3 ''w'' None Ignore sample_heap)) = JNull"
  using insert_obj_null [OF sample_heap_facts(1) _ disjI1 [OF sample_heap_facts(5)], of Ignore]
    sample_heap_facts(1,5) by simp

lemma insert_value_roundtrip_witness:
  "''x'' \<noteq> [] \<and> (map_of (hash_of sample_heap 3) ''x'' = None \<or> Replace = Replace)
   \<and> value_obj 3 ''x'' (insert_obj 3 ''x'' (Some 5) Replace sample_heap) = 5"
  using insert_value_roundtrip [of "''x''" sample_heap 3 Replace 5] by simp

lemma remove_obj_present_witness:
  "hash_ok (hash_of sample_heap 3) \<and> map_of (hash_of sample_heap 3) ''x'' = Some 4
   \<and> count_obj 3 (remove_obj 3 ''x'' sample_heap) = 1"
  using remove_obj_present [OF sample_heap_facts(7,3)] sample_heap_facts(7,3)
  by (simp add: count_obj_def sample_heap_def hash_of_def)

lemma remove_obj_absent_witness:
  "map_of (hash_of sample_heap 3) ''w'' = None \<and> remove_obj 3 ''w'' sample_heap = sample_heap"
  using remove_obj_absent [OF sample_heap_facts(5)] sample_heap_facts(5) by blast

lemma take_obj_present_witness:
  "map_of (hash_of sample_heap 3) ''x'' = Some 4
   \<and> fst (take_obj 3 ''x'' sample_heap) = 4"
  using take_obj_present [OF sample_heap_facts(3)] sample_heap_facts(3) by simp

lemma take_obj_absent_witness:
  "heap_wf sample_heap \<and> map_of (hash_of sample_heap 3) ''w'' = None
   \<and> fst (take_obj 3 ''w'' sample_heap) \<notin> dom (vals sample_heap)"
  using take_obj_absent [OF sample_heap_facts(1,5)] sample_heap_facts(1,5) by blast

lemma take_dflt_obj_absent_witness:
  "map_of (hash_of sample_heap 3) ''w'' = None \<and> take_dflt_obj 3 ''w'' 5 sample_heap = (5, sample_heap)"
  using take_dflt_obj_absent [OF sample_heap_facts(5)] sample_heap_facts(5) by blast

lemma toDouble_dflt_obj_spec_witness:
  "\<not> isDouble (cell sample_heap (null_default sample_heap))
   \<and> toDouble_dflt_obj 3 ''w'' (7 / 2) sample_heap = 7 / 2"
  using toDouble_dflt_obj_spec [OF sample_heap_facts(10), of 3 "''w''" "7 / 2"]
    sample_heap_facts(5,10) by simp

lemma fromDouble_obj_missing_witness:
  "map_of (hash_of sample_heap 3) ''w'' = None
   \<and> toDouble_dflt_obj 3 ''v'' (7 / 2) (snd (fromDouble_obj 3 ''w'' 1 sample_heap)) = 1"
proof -
  have "map_of (hash_of sample_heap 3) ''v'' = None" by (simp add: sample_heap_def hash_of_def)
  with fromDouble_obj_missing [OF sample_heap_facts(5), of 1 "7 / 2"] sample_heap_facts(5)
  show ?thesis by blast
qed

lemma fromBool_obj_alias_witness:
  "map_of (hash_of sample_heap 3) ''y'' = Some 5 \<and> map_of (hash_of sample_heap 6) ''z'' = Some 5
   \<and> toBool_obj 6 ''z'' (snd (fromBool_obj 3 ''y'' False sample_heap)) = False"
  using fromBool_obj_alias [OF sample_heap_facts(4,6), of False] sample_heap_facts(4,6) by blast

end
