(* ===== verification/JsonUnite.thy ===== *)
theory JsonUnite
  imports JsonObject
begin

text \<open>
  \<open>QMJsonObject::unite\<close> (src/src/core/qmjsonobject.cpp, lines 131--162), the deep
  merge: its definition with Array's merge as a parameter, what it leaves alone, where it
  writes, the receiver's entries after it returns, when it returns, and a heap on which
  it never returns.
\<close>

section \<open>The array collaborator\<close>

text \<open>
  \<open>QMJsonArray::unite(other, policy)\<close> is not under \<open>src/\<close>; its combination
  strategy is an external detail (specification, section 4.3). The object code only
  needs that it replaces the receiver's element list by some combination of the two
  lists. The combination is a parameter \<open>au\<close> of the merge, so every theorem below
  holds for any array strategy.
\<close>

type_synonym 'p array_unite = "'p \<Rightarrow> vref list \<Rightarrow> vref list \<Rightarrow> vref list"

definition unite_arr :: "'p array_unite \<Rightarrow> aref \<Rightarrow> aref \<Rightarrow> 'p \<Rightarrow> heap \<Rightarrow> heap" where
  "unite_arr au a b up h = set_elems a (au up (elems h a) (elems h b)) h"

section \<open>unite\<close>

text \<open>
  \<open>unite(object, replacementPolicy, unitePolicy)\<close> and its loop over the snapshot
  \<open>object->keys()\<close>. The recursion into nested objects need not end on a cyclic
  heap (an object that contains itself), so both functions spend one unit of fuel per
  nesting level and return \<open>None\<close> when it runs out.
\<close>

function (sequential) unite_obj ::
  "nat \<Rightarrow> 'p array_unite \<Rightarrow> oref \<Rightarrow> oref option \<Rightarrow> replacement_policy \<Rightarrow> 'p \<Rightarrow> heap \<Rightarrow> heap option"
and unite_keys ::
  "nat \<Rightarrow> 'p array_unite \<Rightarrow> oref \<Rightarrow> oref \<Rightarrow> key list \<Rightarrow> replacement_policy \<Rightarrow> 'p \<Rightarrow> heap \<Rightarrow> heap option"
and unite_step ::
  "nat \<Rightarrow> 'p array_unite \<Rightarrow> oref \<Rightarrow> oref \<Rightarrow> key \<Rightarrow> replacement_policy \<Rightarrow> 'p \<Rightarrow> heap \<Rightarrow> heap option"
where
  "unite_obj n au t None rp up h = Some h"
| "unite_obj 0 au t (Some b) rp up h = None"
| "unite_obj (Suc n) au t (Some b) rp up h = unite_keys n au t b (keys_obj b h) rp up h"
| "unite_keys n au t b [] rp up h = Some h"
| "unite_keys n au t b (k # ks) rp up h =
     (case unite_step n au t b k rp up h of
        None \<Rightarrow> None
      | Some h' \<Rightarrow> unite_keys n au t b ks rp up h')"
| "unite_step n au t b k rp up h =
     (if contains_obj t k h then
        (let v1 = value_obj t k h; v2 = value_obj b k h in
         if isObject (cell h v1) \<and> isObject (cell h v2) then
           unite_obj n au (toObject (cell h v1) (object_default h))
             (Some (toObject (cell h v2) (object_default h))) rp up h
         else if isArray (cell h v1) \<and> isArray (cell h v2) then
           Some (unite_arr au (toArray (cell h v1) (array_default h))
                   (toArray (cell h v2) (array_default h)) up h)
         else Some (insert_obj t k (Some v2) rp h))
      else Some (insert_obj t k (Some (value_obj b k h)) rp h))"
  by pat_completeness auto
termination
  by (relation "measures
        [\<lambda>x. case x of Inl (n, _) \<Rightarrow> n | Inr (Inl (n, _)) \<Rightarrow> n | Inr (Inr (n, _)) \<Rightarrow> n,
         \<lambda>x. case x of Inl _ \<Rightarrow> 0 | Inr (Inr _) \<Rightarrow> 1
                | Inr (Inl (_, _, _, _, ks, _)) \<Rightarrow> 2 + length ks]") auto


section \<open>What unite leaves alone\<close>

text \<open>
  \<open>cells_kept h h'\<close>: the value cells, the allocation limit and the statics are the
  same. The merge only rewires hashes and arrays: it never writes a value cell and,
  since every handle it inserts is non-null, never allocates.
\<close>

definition cells_kept :: "heap \<Rightarrow> heap \<Rightarrow> bool" where
  "cells_kept h h' \<longleftrightarrow> vals h' = vals h \<and> lim h' = lim h \<and> null_default h' = null_default h
     \<and> array_default h' = array_default h \<and> object_default h' = object_default h"

lemma cells_kept_refl [simp]: "cells_kept h h"
  by (simp add: cells_kept_def)

lemma cells_kept_trans: "cells_kept h h1 \<Longrightarrow> cells_kept h1 h2 \<Longrightarrow> cells_kept h h2"
  by (simp add: cells_kept_def)

lemma cells_kept_cell: "cells_kept h h' \<Longrightarrow> cell h' = cell h"
  by (simp add: cells_kept_def cell_def fun_eq_iff)

lemma cells_kept_insert_obj [simp]: "cells_kept h (insert_obj t k (Some r) rp h)"
  by (simp add: cells_kept_def insert_obj_def split: option.splits replacement_policy.splits)

lemma insert_obj_statics [simp]:
  "vals (insert_obj t k (Some r) rp h) = vals h" "lim (insert_obj t k (Some r) rp h) = lim h"
  "null_default (insert_obj t k (Some r) rp h) = null_default h"
  "array_default (insert_obj t k (Some r) rp h) = array_default h"
  "object_default (insert_obj t k (Some r) rp h) = object_default h"
  using cells_kept_insert_obj [of h t k r rp] by (simp_all add: cells_kept_def)

lemma cells_kept_unite_arr [simp]: "cells_kept h (unite_arr au a b up h)"
  by (simp add: cells_kept_def unite_arr_def)

lemma unite_cells_kept:
  "unite_obj n au t ob rp up h = Some h' \<Longrightarrow> cells_kept h h'"
  "unite_keys n au t b ks rp up h = Some h' \<Longrightarrow> cells_kept h h'"
  "unite_step n au t b k rp up h = Some h' \<Longrightarrow> cells_kept h h'"
proof (induction n au t ob rp up h and n au t b ks rp up h and n au t b k rp up h
       arbitrary: h' and h' and h' rule: unite_obj_unite_keys_unite_step.induct)
  case (5 n au t b k ks rp up h)
  then show ?case by (auto split: option.splits intro: cells_kept_trans)
next
  case (6 n au t b k rp up h)
  then show ?case by (auto simp: Let_def split: if_splits)
qed auto

text \<open>More fuel never changes a result.\<close>

lemma unite_fuel_mono:
  "unite_obj n au t ob rp up h = Some h' \<Longrightarrow> unite_obj (Suc n) au t ob rp up h = Some h'"
  "unite_keys n au t b ks rp up h = Some h' \<Longrightarrow> unite_keys (Suc n) au t b ks rp up h = Some h'"
  "unite_step n au t b k rp up h = Some h' \<Longrightarrow> unite_step (Suc n) au t b k rp up h = Some h'"
proof (induction n au t ob rp up h and n au t b ks rp up h and n au t b k rp up h
       arbitrary: h' and h' and h' rule: unite_obj_unite_keys_unite_step.induct)
  case (5 n au t b k ks rp up h)
  then show ?case by (auto split: option.splits)
next
  case (6 n au t b k rp up h)
  then show ?case by (auto simp: Let_def split: if_splits)
qed auto


section \<open>Where unite writes\<close>

text \<open>
  \<open>child_objs h ob\<close>: the objects that the entries of \<open>ob\<close> own. A set \<open>S\<close> of
  objects is closed when it holds the children of its members and the object the
  shared static may own. Such a set exists for every heap (all objects), and for a
  document tree it is the set of objects below the two roots.
\<close>

definition child_objs :: "heap \<Rightarrow> oref \<Rightarrow> oref set" where
  "child_objs h ob = {x. \<exists>v \<in> set (values_obj ob h). cell h v = JObject x}"

definition obj_closed :: "heap \<Rightarrow> oref set \<Rightarrow> bool" where
  "obj_closed h S \<longleftrightarrow>
     (\<forall>x. cell h (null_default h) = JObject x \<longrightarrow> x \<in> S) \<and> (\<forall>ob \<in> S. child_objs h ob \<subseteq> S)"

lemma insert_obj_map_of:
  "map_of (hash_of (insert_obj t k (Some r) rp h) t) =
     (if k = [] then map_of (hash_of h t)
      else case map_of (hash_of h t) k of
             None \<Rightarrow> (map_of (hash_of h t))(k \<mapsto> r)
           | Some _ \<Rightarrow> (if rp = Replace then (map_of (hash_of h t))(k \<mapsto> r) else map_of (hash_of h t)))"
  by (simp add: insert_obj_def delete_conv' map_add_single_fresh
      split: option.splits replacement_policy.splits)

lemma insert_obj_other [simp]:
  "x \<noteq> t \<Longrightarrow> hash_of (insert_obj t k val rp h) x = hash_of h x"
  by (cases val) (simp_all add: insert_obj_def split: option.splits replacement_policy.splits)

lemma insert_obj_values:
  "set (values_obj t (insert_obj t k (Some r) rp h)) \<subseteq> insert r (set (values_obj t h))"
  using set_values_update [of k r "hash_of h t"] set_values_update [of k r "AList.delete k (hash_of h t)"]
    set_values_delete [of k "hash_of h t"]
  by (auto simp: insert_obj_def values_obj_def split: option.splits replacement_policy.splits)

lemma child_objs_insert_obj:
  "child_objs (insert_obj t k (Some r) rp h) ob \<subseteq> child_objs h ob \<union> {x. cell h r = JObject x}"
proof (cases "ob = t")
  case True
  with insert_obj_values [of t k r rp h] show ?thesis
    by (auto simp: child_objs_def cells_kept_cell [OF cells_kept_insert_obj])
next
  case False
  then show ?thesis
    by (simp add: child_objs_def values_obj_def cells_kept_cell [OF cells_kept_insert_obj])
qed

lemma frame_unite_arr [simp]:
  "hash_of (unite_arr au a b up h) = hash_of h" "cell (unite_arr au a b up h) = cell h"
  "null_default (unite_arr au a b up h) = null_default h"
  by (simp_all add: unite_arr_def)

lemma child_objs_unite_arr [simp]: "child_objs (unite_arr au a b up h) = child_objs h"
  by (simp add: child_objs_def values_obj_def unite_arr_def fun_eq_iff)

lemma value_obj_child:
  assumes "obj_closed h S" "b \<in> S \<or> child_objs h b \<subseteq> S" "cell h (value_obj b k h) = JObject x"
  shows "x \<in> S"
proof (cases "map_of (hash_of h b) k")
  case None
  with assms show ?thesis by (simp add: value_obj_def obj_closed_def)
next
  case (Some v)
  then have "v \<in> set (values_obj b h)" unfolding values_obj_def by (rule map_of_in_values)
  with Some assms show ?thesis by (auto simp: value_obj_def obj_closed_def child_objs_def)
qed

lemma obj_closed_insert_obj:
  assumes "obj_closed h S" "\<forall>x. cell h r = JObject x \<longrightarrow> x \<in> S"
  shows "obj_closed (insert_obj t k (Some r) rp h) S"
proof -
  have "null_default (insert_obj t k (Some r) rp h) = null_default h"
    using cells_kept_insert_obj [of h t k r rp] by (simp add: cells_kept_def)
  with assms child_objs_insert_obj [of t k r rp h] show ?thesis
    by (simp add: obj_closed_def cells_kept_cell [OF cells_kept_insert_obj]) blast
qed


text \<open>
  Confinement: a merge whose receiver and argument lie in a closed set \<open>S\<close> writes
  only hashes of \<open>S\<close> and leaves \<open>S\<close> closed.
\<close>

definition confined :: "oref set \<Rightarrow> heap \<Rightarrow> heap \<Rightarrow> bool" where
  "confined S h h' \<longleftrightarrow> obj_closed h' S \<and> (\<forall>x. x \<notin> S \<longrightarrow> hash_of h' x = hash_of h x)"

lemma confined_trans:
  "confined S h h1 \<Longrightarrow> confined S h1 h2 \<Longrightarrow> confined S h h2"
  by (simp add: confined_def)

lemma confined_insert_obj:
  "obj_closed h S \<Longrightarrow> t \<in> S \<Longrightarrow> \<forall>x. cell h r = JObject x \<longrightarrow> x \<in> S \<Longrightarrow>
   confined S h (insert_obj t k (Some r) rp h)"
  unfolding confined_def by (metis obj_closed_insert_obj insert_obj_other)

lemma confined_unite_arr: "obj_closed h S \<Longrightarrow> confined S h (unite_arr au a b up h)"
  by (simp add: confined_def obj_closed_def unite_arr_def child_objs_def values_obj_def)

lemma unite_confined:
  "unite_obj n au a ob rp up h = Some h' \<Longrightarrow> obj_closed h S \<Longrightarrow> a \<in> S \<Longrightarrow>
     set_option ob \<subseteq> S \<Longrightarrow> confined S h h'"
  "unite_keys n au a b ks rp up h = Some h' \<Longrightarrow> obj_closed h S \<Longrightarrow> a \<in> S \<Longrightarrow>
     b \<in> S \<Longrightarrow> confined S h h'"
  "unite_step n au a b k rp up h = Some h' \<Longrightarrow> obj_closed h S \<Longrightarrow> a \<in> S \<Longrightarrow>
     b \<in> S \<Longrightarrow> confined S h h'"
proof (induction n au a ob rp up h and n au a b ks rp up h and n au a b k rp up h
       arbitrary: h' and h' and h' rule: unite_obj_unite_keys_unite_step.induct)
  case (5 n au t b k ks rp up h)
  from "5.prems"(1) obtain h1 where h1: "unite_step n au t b k rp up h = Some h1"
    and rest: "unite_keys n au t b ks rp up h1 = Some h'"
    by (auto split: option.splits)
  from "5.IH"(1) [OF h1 "5.prems"(2-4)] have c1: "confined S h h1" .
  then have "obj_closed h1 S" by (simp add: confined_def)
  from "5.IH"(2) [OF h1 rest this "5.prems"(3,4)] c1 show ?case
    by (blast intro: confined_trans)
next
  case (6 n au t b k rp up h)
  let ?v1 = "value_obj t k h" and ?v2 = "value_obj b k h"
  have v2S: "\<forall>x. cell h ?v2 = JObject x \<longrightarrow> x \<in> S"
    using "6.prems"(2,4) value_obj_child by blast
  show ?case
  proof (cases "contains_obj t k h")
    case True
    then obtain r where r: "map_of (hash_of h t) k = Some r" by (auto simp: contains_obj_def)
    then have v1: "?v1 = r" by (simp add: value_obj_def)
    have v1S: "\<forall>x. cell h r = JObject x \<longrightarrow> x \<in> S"
      using "6.prems"(2,3) value_obj_child [of h S t k] v1 by blast
    show ?thesis
    proof (cases "isObject (cell h ?v1) \<and> isObject (cell h ?v2)")
      case both: True
      with "6.prems"(1) True have "unite_obj n au (toObject (cell h ?v1) (object_default h))
          (Some (toObject (cell h ?v2) (object_default h))) rp up h = Some h'"
        by simp
      moreover from both v1 v1S v2S
      have "toObject (cell h ?v1) (object_default h) \<in> S"
        and "toObject (cell h ?v2) (object_default h) \<in> S"
        by (auto simp: isObject_iff [of _ "object_default h"])
      ultimately show ?thesis
        using "6.IH"(1) [OF True refl refl both] "6.prems"(2) by simp
    next
      case False
      with "6.prems"(1) True
      have "h' = (if isArray (cell h ?v1) \<and> isArray (cell h ?v2) then
                    unite_arr au (toArray (cell h ?v1) (array_default h))
                      (toArray (cell h ?v2) (array_default h)) up h
                  else insert_obj t k (Some ?v2) rp h)"
        by (auto simp: Let_def split: if_splits)
      with "6.prems"(2,3) v2S show ?thesis
        by (simp add: confined_insert_obj confined_unite_arr)
    qed
  next
    case False
    with "6.prems"(1) have "h' = insert_obj t k (Some ?v2) rp h" by simp
    with "6.prems"(2,3) v2S show ?thesis
      by (simp add: confined_insert_obj)
  qed
qed (auto simp: confined_def)


section \<open>The receiver's entries after unite\<close>

text \<open>
  The decision the merge takes for one key (specification, section 4.2): a key absent
  from the argument keeps the receiver's entry; a key present in both keeps the
  receiver's handle when both are objects (merged in place, case 1a) or both arrays
  (case 1b), and otherwise follows \<open>insert\<close> under the replacement policy (case 1c);
  a key absent from the receiver is inserted (case 2). \<open>insert\<close> skips the empty key.
\<close>

definition unite_entry ::
  "replacement_policy \<Rightarrow> (vref \<Rightarrow> jvalue) \<Rightarrow> key \<Rightarrow> vref option \<Rightarrow> vref option \<Rightarrow> vref option" where
  "unite_entry rp c k a b =
     (case b of
        None \<Rightarrow> a
      | Some vb \<Rightarrow>
          (case a of
             None \<Rightarrow> (if k = [] then None else Some vb)
           | Some va \<Rightarrow>
               (if (isObject (c va) \<and> isObject (c vb)) \<or> (isArray (c va) \<and> isArray (c vb))
                   \<or> k = [] \<or> rp = Ignore
                then Some va else Some vb)))"

definition unite_spec ::
  "replacement_policy \<Rightarrow> (vref \<Rightarrow> jvalue) \<Rightarrow> (key \<rightharpoonup> vref) \<Rightarrow> (key \<rightharpoonup> vref) \<Rightarrow> (key \<rightharpoonup> vref)" where
  "unite_spec rp c A B = (\<lambda>k. unite_entry rp c k (A k) (B k))"

text \<open>
  The hypotheses of the top-level theorems: a closed set \<open>S\<close> of objects that holds the
  children of the receiver \<open>t\<close> and of the argument \<open>b\<close> but neither of them. It says
  that \<open>t\<close> and \<open>b\<close> are distinct and lie on no cycle and neither below the other, as in
  two separate documents.
\<close>

definition unite_sep :: "heap \<Rightarrow> oref set \<Rightarrow> oref \<Rightarrow> oref \<Rightarrow> bool" where
  "unite_sep h S t b \<longleftrightarrow> obj_closed h S \<and> t \<notin> S \<and> b \<notin> S \<and> t \<noteq> b
     \<and> child_objs h t \<subseteq> S \<and> child_objs h b \<subseteq> S"

lemma unite_step_top:
  assumes step: "unite_step n au t b k rp up h = Some h1"
    and sep: "unite_sep h S t b" and vb: "map_of (hash_of h b) k = Some vb"
  shows "map_of (hash_of h1 t) = (map_of (hash_of h t))(k := unite_entry rp (cell h) k (map_of (hash_of h t) k) (Some vb))
    \<and> hash_of h1 b = hash_of h b \<and> unite_sep h1 S t b \<and> cells_kept h h1
    \<and> (\<forall>x. x \<notin> S \<and> x \<noteq> t \<longrightarrow> hash_of h1 x = hash_of h x)"
proof -
  from sep have cl: "obj_closed h S" and tS: "t \<notin> S" and bS: "b \<notin> S" and tb: "t \<noteq> b"
    and ct: "child_objs h t \<subseteq> S" and cb: "child_objs h b \<subseteq> S"
    by (simp_all add: unite_sep_def)
  have v2: "value_obj b k h = vb" using vb by (simp add: value_obj_def)
  have vbS: "\<forall>x. cell h vb = JObject x \<longrightarrow> x \<in> S"
    using value_obj_child [OF cl _ ] cb v2 by blast
  show ?thesis
  proof (cases "contains_obj t k h")
    case True
    then obtain va where va: "map_of (hash_of h t) k = Some va" by (auto simp: contains_obj_def)
    then have v1: "value_obj t k h = va" by (simp add: value_obj_def)
    have vaS: "\<forall>x. cell h va = JObject x \<longrightarrow> x \<in> S"
      using value_obj_child [OF cl, of t k] ct v1 by blast
    show ?thesis
    proof (cases "isObject (cell h va) \<and> isObject (cell h vb)")
      case both: True
      let ?x = "toObject (cell h va) (object_default h)" and ?y = "toObject (cell h vb) (object_default h)"
      from step True both v1 v2 have rec: "unite_obj n au ?x (Some ?y) rp up h = Some h1" by simp
      from both vaS vbS have "?x \<in> S" "?y \<in> S" by (auto simp: isObject_iff [of _ "object_default h"])
      with rec cl have conf: "confined S h h1" by (intro unite_confined(1)) auto
      have ck: "cells_kept h h1" using rec by (rule unite_cells_kept(1))
      from conf tS bS have "hash_of h1 t = hash_of h t" "hash_of h1 b = hash_of h b"
        by (simp_all add: confined_def)
      moreover from conf have "obj_closed h1 S" by (simp add: confined_def)
      ultimately show ?thesis using conf ck sep va both
        by (auto simp: unite_entry_def unite_sep_def child_objs_def values_obj_def
            cells_kept_cell confined_def)
    next
      case notboth: False
      show ?thesis
      proof (cases "isArray (cell h va) \<and> isArray (cell h vb)")
        case arrs: True
        with step True notboth v1 v2
        have "h1 = unite_arr au (toArray (cell h va) (array_default h)) (toArray (cell h vb) (array_default h)) up h"
          by simp
        with sep va arrs show ?thesis
          by (simp add: unite_entry_def unite_sep_def obj_closed_def map_upd_triv)
      next
        case False
        with step True notboth v1 v2 have h1: "h1 = insert_obj t k (Some vb) rp h" by simp
        have "obj_closed h1 S" using h1 obj_closed_insert_obj [OF cl vbS] by simp
        moreover have "child_objs h1 t \<subseteq> S"
          using h1 child_objs_insert_obj [of t k vb rp h] ct vbS by blast
        moreover have "child_objs h1 b \<subseteq> S"
          using h1 child_objs_insert_obj [of b k vb rp h] cb tb by (simp add: child_objs_def values_obj_def
              cells_kept_cell [OF cells_kept_insert_obj])
        ultimately show ?thesis using h1 sep va notboth False tb
          by (cases rp) (auto simp: unite_entry_def unite_sep_def insert_obj_map_of fun_eq_iff)
      qed
    qed
  next
    case False
    then have va: "map_of (hash_of h t) k = None" by (simp add: contains_obj_def)
    from step False v2 have h1: "h1 = insert_obj t k (Some vb) rp h" by simp
    have "obj_closed h1 S" using h1 obj_closed_insert_obj [OF cl vbS] by simp
    moreover have "child_objs h1 t \<subseteq> S"
      using h1 child_objs_insert_obj [of t k vb rp h] ct vbS by blast
    moreover have "child_objs h1 b \<subseteq> S"
      using h1 cb tb by (simp add: child_objs_def values_obj_def cells_kept_cell [OF cells_kept_insert_obj])
    ultimately show ?thesis using h1 sep va tb
      by (auto simp: unite_entry_def unite_sep_def insert_obj_map_of fun_eq_iff)
  qed
qed


lemma unite_keys_top:
  assumes "unite_keys n au t b ks rp up h = Some h'" and "unite_sep h S t b"
    and "distinct ks" and "set ks \<subseteq> dom (map_of (hash_of h b))"
  shows "map_of (hash_of h' t) =
           (\<lambda>k. if k \<in> set ks
                then unite_entry rp (cell h) k (map_of (hash_of h t) k) (map_of (hash_of h b) k)
                else map_of (hash_of h t) k)
    \<and> hash_of h' b = hash_of h b \<and> unite_sep h' S t b \<and> cells_kept h h'
    \<and> (\<forall>x. x \<notin> S \<and> x \<noteq> t \<longrightarrow> hash_of h' x = hash_of h x)"
  using assms
proof (induction ks arbitrary: h)
  case Nil
  then show ?case by (simp add: fun_eq_iff)
next
  case (Cons k ks)
  from Cons.prems(1) obtain h1 where step: "unite_step n au t b k rp up h = Some h1"
    and rest: "unite_keys n au t b ks rp up h1 = Some h'"
    by (auto split: option.splits)
  from Cons.prems(4) obtain vb where vb: "map_of (hash_of h b) k = Some vb" by auto
  note one = unite_step_top [OF step Cons.prems(2) vb]
  from one Cons.prems(3,4) have "set ks \<subseteq> dom (map_of (hash_of h1 b))" by simp
  with Cons.IH [OF rest] one Cons.prems(3)
  have IH: "map_of (hash_of h' t) =
           (\<lambda>k. if k \<in> set ks
                then unite_entry rp (cell h1) k (map_of (hash_of h1 t) k) (map_of (hash_of h1 b) k)
                else map_of (hash_of h1 t) k)
    \<and> hash_of h' b = hash_of h1 b \<and> unite_sep h' S t b \<and> cells_kept h1 h'
    \<and> (\<forall>x. x \<notin> S \<and> x \<noteq> t \<longrightarrow> hash_of h' x = hash_of h1 x)"
    by simp
  have c1: "cell h1 = cell h" using one by (simp add: cells_kept_cell)
  from IH [unfolded c1] one Cons.prems(3) vb show ?case
    by (auto simp: fun_eq_iff intro: cells_kept_trans)
qed

text \<open>C1: after \<open>unite\<close> returns on two separate documents, each entry of the receiver is the per-key decision of the merge: argument-only keys are inserted, receiver-only keys kept, object/object and array/array conflicts keep the receiver's handle (merged in place), and other conflicts follow the replacement policy.\<close>

theorem unite_obj_entries:
  assumes "unite_obj n au t (Some b) rp up h = Some h'" and "unite_sep h S t b"
    and "hash_ok (hash_of h b)"
  shows "map_of (hash_of h' t) = unite_spec rp (cell h) (map_of (hash_of h t)) (map_of (hash_of h b))"
proof -
  from assms(1) obtain m where n: "n = Suc m" by (cases n) auto
  with assms(1) have loop: "unite_keys m au t b (keys_obj b h) rp up h = Some h'" by simp
  have "distinct (keys_obj b h)" using assms(3) by (simp add: keys_obj_def hash_ok_def)
  moreover have keys: "set (keys_obj b h) = dom (map_of (hash_of h b))"
    by (simp add: keys_obj_def dom_map_of_conv_image_fst)
  ultimately have "map_of (hash_of h' t) =
           (\<lambda>k. if k \<in> dom (map_of (hash_of h b))
                then unite_entry rp (cell h) k (map_of (hash_of h t) k) (map_of (hash_of h b) k)
                else map_of (hash_of h t) k)"
    using unite_keys_top [OF loop assms(2)] by simp
  moreover have "unite_entry rp (cell h) k (map_of (hash_of h t) k) None = map_of (hash_of h t) k"
    for k by (simp add: unite_entry_def)
  ultimately show ?thesis
    by (auto simp: unite_spec_def fun_eq_iff domIff)
qed

text \<open>C2: \<open>unite\<close> on two separate documents leaves the argument object, every value cell and every object outside the two documents unchanged.\<close>

theorem unite_obj_frame:
  assumes "unite_obj n au t (Some b) rp up h = Some h'" and "unite_sep h S t b"
    and "hash_ok (hash_of h b)"
  shows "hash_of h' b = hash_of h b \<and> cells_kept h h'
    \<and> (\<forall>x. x \<notin> S \<and> x \<noteq> t \<longrightarrow> hash_of h' x = hash_of h x)"
proof -
  from assms(1) obtain m where n: "n = Suc m" by (cases n) auto
  with assms(1) have loop: "unite_keys m au t b (keys_obj b h) rp up h = Some h'" by simp
  have "distinct (keys_obj b h)" using assms(3) by (simp add: keys_obj_def hash_ok_def)
  moreover have "set (keys_obj b h) \<subseteq> dom (map_of (hash_of h b))"
    by (simp add: keys_obj_def dom_map_of_conv_image_fst)
  ultimately show ?thesis using unite_keys_top [OF loop assms(2)] by simp
qed

section \<open>Termination\<close>

text \<open>
  A merge in which no key holds an object on both sides never recurses, and returns
  with one unit of fuel.
\<close>

definition no_nested :: "heap \<Rightarrow> oref \<Rightarrow> oref \<Rightarrow> key \<Rightarrow> bool" where
  "no_nested h t b k \<longleftrightarrow>
     (\<forall>va vb. map_of (hash_of h t) k = Some va \<longrightarrow> map_of (hash_of h b) k = Some vb \<longrightarrow>
        \<not> (isObject (cell h va) \<and> isObject (cell h vb)))"

lemma unite_step_flat:
  assumes "no_nested h t b k" and "map_of (hash_of h b) k = Some vb"
  shows "\<exists>h1. unite_step n au t b k rp up h = Some h1"
  using assms by (auto simp: no_nested_def contains_obj_def value_obj_def Let_def)

lemma unite_keys_flat:
  assumes "unite_sep h S t b" and "distinct ks" and "set ks \<subseteq> dom (map_of (hash_of h b))"
    and "\<forall>k \<in> set ks. no_nested h t b k"
  shows "\<exists>h'. unite_keys n au t b ks rp up h = Some h'"
  using assms
proof (induction ks arbitrary: h)
  case Nil
  then show ?case by simp
next
  case (Cons k ks)
  from Cons.prems(3) obtain vb where vb: "map_of (hash_of h b) k = Some vb" by auto
  have "no_nested h t b k" using Cons.prems(4) by simp
  from unite_step_flat [OF this vb, of n au rp up]
  obtain h1 where step: "unite_step n au t b k rp up h = Some h1" ..
  note one = unite_step_top [OF step Cons.prems(1) vb]
  have "\<forall>k' \<in> set ks. no_nested h1 t b k'"
    using one Cons.prems(2,4) by (auto simp: no_nested_def cells_kept_cell)
  with one Cons.prems(2,3) obtain h' where "unite_keys n au t b ks rp up h1 = Some h'"
    using Cons.IH [of h1] by auto
  with step show ?case by simp
qed

text \<open>C3: a merge of two separate documents in which no key holds an object on both sides returns, with one unit of fuel.\<close>

theorem unite_flat_terminates:
  assumes "unite_sep h S t b" and "hash_ok (hash_of h b)"
    and "\<forall>k. no_nested h t b k"
  shows "\<exists>h'. unite_obj (Suc n) au t (Some b) rp up h = Some h'"
proof -
  have "distinct (keys_obj b h)" using assms(2) by (simp add: keys_obj_def hash_ok_def)
  moreover have "set (keys_obj b h) \<subseteq> dom (map_of (hash_of h b))"
    by (simp add: keys_obj_def dom_map_of_conv_image_fst)
  ultimately show ?thesis using unite_keys_flat [OF assms(1)] assms(3) by simp
qed

text \<open>
  Without the separation hypothesis the merge need not return, even on a heap without
  cycles. An object that receives a key from the argument stores the argument's handle;
  when two keys of the receiver share a value and the argument's nested object holds
  that same value, the first key's merge makes the shared object contain itself and
  the second key's merge then recurses into it forever (a stack overflow in C++).
\<close>

lemma unite_self_loop:
  assumes "hash_of h x = [(k, v)]" and "cell h v = JObject x"
  shows "unite_obj n au x (Some x) rp up h = None"
  using assms
proof (induction n)
  case 0
  then show ?case by simp
next
  case (Suc n)
  then show ?case
    by (simp add: keys_obj_def contains_obj_def value_obj_def)
qed


section \<open>A merge that never returns\<close>

definition alias_heap :: heap where
  "alias_heap =
     \<lparr>vals = [0 \<mapsto> JNull, 11 \<mapsto> JObject 10, 21 \<mapsto> JObject 20],
      objs = [2 \<mapsto> [], 10 \<mapsto> [], 20 \<mapsto> [(''c'', 11)],
              30 \<mapsto> [(''a'', 11), (''b'', 11)], 40 \<mapsto> [(''a'', 21), (''b'', 21)]],
      arrs = [1 \<mapsto> []], lim = 50, signals = [],
      null_default = 0, array_default = 1, object_default = 2\<rparr>"

lemma alias_heap_wf: "heap_wf alias_heap"
  by (auto simp: alias_heap_def heap_wf_def bounded_def statics_ok_def hashes_ok_def arrays_ok_def
      payloads_ok_def hash_of_def cell_def elems_def hash_ok_def)

lemma alias_heap_acyclic: "\<forall>ob \<in> dom (objs alias_heap). \<forall>x \<in> child_objs alias_heap ob. x < ob"
  by (auto simp: alias_heap_def child_objs_def values_obj_def hash_of_def cell_def)

text \<open>C4: on a well-formed heap without cycles (every child object has a smaller
  handle than its parent), merging two documents that share a value never returns:
  \<open>unite\<close> yields \<open>None\<close> for every amount of fuel.\<close>

theorem unite_alias_diverges:
  "heap_wf alias_heap \<and> (\<forall>ob \<in> dom (objs alias_heap). \<forall>x \<in> child_objs alias_heap ob. x < ob)
   \<and> unite_obj n au 30 (Some 40) rp up alias_heap = None"
proof -
  let ?h1 = "insert_obj 10 ''c'' (Some 11) rp alias_heap"
  have loop: "unite_obj m au 10 (Some 10) rp up ?h1 = None" for m
    by (rule unite_self_loop [where k = "''c''" and v = 11])
       (simp_all add: alias_heap_def insert_obj_def hash_of_def cell_def)
  have "unite_obj n au 30 (Some 40) rp up alias_heap = None"
  proof (cases n)
    case 0
    then show ?thesis by simp
  next
    case (Suc m)
    show ?thesis
    proof (cases m)
      case 0
      with Suc show ?thesis
        by (simp add: alias_heap_def keys_obj_def contains_obj_def value_obj_def hash_of_def cell_def)
    next
      case (Suc m')
      have first: "unite_obj m au 10 (Some 20) rp up alias_heap = Some ?h1"
        using Suc by (simp add: alias_heap_def keys_obj_def contains_obj_def value_obj_def hash_of_def)
      have second: "unite_obj m au 10 (Some 20) rp up ?h1 = None"
        using Suc loop by (simp add: alias_heap_def keys_obj_def contains_obj_def value_obj_def
            hash_of_def cell_def insert_obj_def)
      have c: "cell alias_heap 11 = JObject 10" "cell alias_heap 21 = JObject 20"
        "hash_of alias_heap 30 = [(''a'', 11), (''b'', 11)]"
        "hash_of alias_heap 40 = [(''a'', 21), (''b'', 21)]" "object_default alias_heap = 2"
        by (simp_all add: alias_heap_def cell_def hash_of_def)
      have h1: "hash_of ?h1 30 = [(''a'', 11), (''b'', 11)]" "hash_of ?h1 40 = [(''a'', 21), (''b'', 21)]"
        "cell ?h1 = cell alias_heap" "object_default ?h1 = 2"
        by (simp_all add: cells_kept_cell c)
      have s1: "unite_step m au 30 40 ''a'' rp up alias_heap = Some ?h1"
        using first c by (simp add: contains_obj_def value_obj_def)
      have s2: "unite_step m au 30 40 ''b'' rp up ?h1 = None"
        using second c h1 by (simp add: contains_obj_def value_obj_def)
      show ?thesis using \<open>n = Suc m\<close> s1 s2 c by (simp add: keys_obj_def del: unite_step.simps)
    qed
  qed
  with alias_heap_wf alias_heap_acyclic show ?thesis by simp
qed

lemma unite_alias_diverges_witness:
  "heap_wf alias_heap \<and> unite_obj 5 (\<lambda>_ xs ys. xs @ ys) 30 (Some 40) Replace () alias_heap = None"
  using unite_alias_diverges [of 5 "\<lambda>_ xs ys. xs @ ys" Replace "()"] by blast

section \<open>Witnesses\<close>

text \<open>
  The scenario of the specification (section 8): \<open>A = {"x": {"y": 1}}\<close> (objects 10
  and 12) and \<open>B = {"x": {"z": 2}}\<close> (objects 20 and 22).
\<close>

definition nested_heap :: heap where
  "nested_heap =
     \<lparr>vals = [0 \<mapsto> JNull, 11 \<mapsto> JObject 12, 13 \<mapsto> JDouble 1, 21 \<mapsto> JObject 22, 23 \<mapsto> JDouble 2],
      objs = [2 \<mapsto> [], 10 \<mapsto> [(''x'', 11)], 12 \<mapsto> [(''y'', 13)], 20 \<mapsto> [(''x'', 21)], 22 \<mapsto> [(''z'', 23)]],
      arrs = [1 \<mapsto> []], lim = 30, signals = [],
      null_default = 0, array_default = 1, object_default = 2\<rparr>"

lemma nested_heap_facts:
  "unite_sep nested_heap {12, 22} 10 20" "hash_ok (hash_of nested_heap 20)"
  "\<forall>k. no_nested nested_heap 12 22 k"
  by (auto simp: nested_heap_def unite_sep_def obj_closed_def child_objs_def values_obj_def
      hash_of_def cell_def hash_ok_def no_nested_def)

lemma nested_heap_run:
  "\<exists>h'. unite_obj 2 (\<lambda>_ xs ys. xs @ ys) 10 (Some 20) Replace () nested_heap = Some h'"
  by (simp add: eval_nat_numeral nested_heap_def keys_obj_def contains_obj_def value_obj_def
      hash_of_def cell_def)

lemma unite_obj_entries_witness:
  "\<exists>h'. unite_obj 2 (\<lambda>_ xs ys. xs @ ys) 10 (Some 20) Replace () nested_heap = Some h'
     \<and> unite_sep nested_heap {12, 22} 10 20 \<and> hash_ok (hash_of nested_heap 20)
     \<and> map_of (hash_of h' 10)
         = unite_spec Replace (cell nested_heap) (map_of (hash_of nested_heap 10)) (map_of (hash_of nested_heap 20))"
proof -
  from nested_heap_run obtain h' where
    run: "unite_obj 2 (\<lambda>_ xs ys. xs @ ys) 10 (Some 20) Replace () nested_heap = Some h'" ..
  show ?thesis
    using unite_obj_entries [OF run nested_heap_facts(1,2)] run nested_heap_facts(1,2) by blast
qed

lemma unite_obj_frame_witness:
  "\<exists>h'. unite_obj 2 (\<lambda>_ xs ys. xs @ ys) 10 (Some 20) Replace () nested_heap = Some h'
     \<and> unite_sep nested_heap {12, 22} 10 20 \<and> hash_ok (hash_of nested_heap 20)
     \<and> hash_of h' 20 = hash_of nested_heap 20"
proof -
  from nested_heap_run obtain h' where
    run: "unite_obj 2 (\<lambda>_ xs ys. xs @ ys) 10 (Some 20) Replace () nested_heap = Some h'" ..
  show ?thesis
    using unite_obj_frame [OF run nested_heap_facts(1,2)] run nested_heap_facts(1,2) by blast
qed

lemma unite_flat_terminates_witness:
  "unite_sep nested_heap {} 12 22 \<and> hash_ok (hash_of nested_heap 22) \<and> (\<forall>k. no_nested nested_heap 12 22 k)
   \<and> (\<exists>h'. unite_obj 1 (\<lambda>_ xs ys. xs @ ys) 12 (Some 22) Ignore () nested_heap = Some h')"
proof -
  have sep: "unite_sep nested_heap {} 12 22" and ok: "hash_ok (hash_of nested_heap 22)"
    by (auto simp: nested_heap_def unite_sep_def obj_closed_def child_objs_def values_obj_def
        hash_of_def cell_def hash_ok_def)
  show ?thesis
    using unite_flat_terminates [OF sep ok nested_heap_facts(3), of 0] sep ok nested_heap_facts(3)
    by simp
qed

end
