(* ===== verification/JsonClear.thy ===== *)
theory JsonClear
  imports JsonObject
begin

text \<open>
  \<open>QMJsonObject::clear\<close> (src/src/core/qmjsonobject.cpp, lines 61--80): first clear
  every object- or array-valued entry in place, then \<open>remove\<close> every key of the
  snapshot \<open>mHash.keys()\<close>, one \<open>itemRemoved\<close> per key. \<open>QMJsonArray::clear\<close> is
  not under src/; the specification (section 4.3) says it recursively releases its
  children, modelled like the object's: clear the nested containers, then empty the list.
  The two recurse into each other, so both take fuel.
\<close>

section \<open>Definitions\<close>

definition remove_keys :: "oref \<Rightarrow> key list \<Rightarrow> heap \<Rightarrow> heap" where
  "remove_keys t ks h = fold (remove_obj t) ks h"

function (sequential) clear_obj :: "nat \<Rightarrow> oref \<Rightarrow> heap \<Rightarrow> heap option"
and clear_arr :: "nat \<Rightarrow> aref \<Rightarrow> heap \<Rightarrow> heap option"
and clear_vals :: "nat \<Rightarrow> vref list \<Rightarrow> heap \<Rightarrow> heap option"
where
  "clear_obj 0 t h = None"
| "clear_obj (Suc n) t h =
     (case clear_vals n (values_obj t h) h of
        None \<Rightarrow> None
      | Some h' \<Rightarrow> Some (remove_keys t (keys_obj t h') h'))"
| "clear_arr 0 a h = None"
| "clear_arr (Suc n) a h =
     (case clear_vals n (elems h a) h of
        None \<Rightarrow> None
      | Some h' \<Rightarrow> Some (set_elems a [] h'))"
| "clear_vals n [] h = Some h"
| "clear_vals n (v # vs) h =
     (if isObject (cell h v) then
        (case clear_obj n (toObject (cell h v) (object_default h)) h of
           None \<Rightarrow> None
         | Some h' \<Rightarrow> clear_vals n vs h')
      else if isArray (cell h v) then
        (case clear_arr n (toArray (cell h v) (array_default h)) h of
           None \<Rightarrow> None
         | Some h' \<Rightarrow> clear_vals n vs h')
      else clear_vals n vs h)"
  by pat_completeness auto
termination
  by (relation "measures
        [\<lambda>x. case x of Inl (n, _) \<Rightarrow> n | Inr (Inl (n, _)) \<Rightarrow> n | Inr (Inr (n, _)) \<Rightarrow> n,
         \<lambda>x. case x of Inl _ \<Rightarrow> 0 | Inr (Inl _) \<Rightarrow> 0 | Inr (Inr (_, vs, _)) \<Rightarrow> 1 + length vs]") auto

section \<open>The containers below a root\<close>

text \<open>
  A container is an object or an array; its successors are the handles it stores, and
  an edge leads to the container a successor owns.
\<close>

datatype node = ObjN oref | ArrN aref

fun succs :: "heap \<Rightarrow> node \<Rightarrow> vref list" where
  "succs h (ObjN t) = values_obj t h"
| "succs h (ArrN a) = elems h a"

definition node_of :: "heap \<Rightarrow> vref \<Rightarrow> node option" where
  "node_of h v = (case cell h v of JObject t \<Rightarrow> Some (ObjN t) | JArray a \<Rightarrow> Some (ArrN a) | _ \<Rightarrow> None)"

definition edge :: "heap \<Rightarrow> node \<Rightarrow> node \<Rightarrow> bool" where
  "edge h u w \<longleftrightarrow> (\<exists>v \<in> set (succs h u). node_of h v = Some w)"

inductive reach :: "heap \<Rightarrow> node \<Rightarrow> node \<Rightarrow> bool" for h where
  reach_refl: "reach h u u"
| reach_step: "edge h u w \<Longrightarrow> reach h w x \<Longrightarrow> reach h u x"

definition emptied :: "heap \<Rightarrow> node \<Rightarrow> bool" where
  "emptied h u \<longleftrightarrow> succs h u = []"

section \<open>The loop of remove calls\<close>

lemma remove_obj_simps [simp]:
  "hash_of (remove_obj t k h) t' = (if t' = t then AList.delete k (hash_of h t) else hash_of h t')"
  "cell (remove_obj t k h) = cell h" "elems (remove_obj t k h) = elems h"
  "vals (remove_obj t k h) = vals h" "arrs (remove_obj t k h) = arrs h"
  "object_default (remove_obj t k h) = object_default h"
  "array_default (remove_obj t k h) = array_default h"
  by (auto simp: remove_obj_def map_of_eq_None_iff split: option.splits)

lemma remove_keys_simps [simp]:
  "t' \<noteq> t \<Longrightarrow> hash_of (remove_keys t ks h) t' = hash_of h t'"
  "cell (remove_keys t ks h) = cell h" "elems (remove_keys t ks h) = elems h"
  "vals (remove_keys t ks h) = vals h" "arrs (remove_keys t ks h) = arrs h"
  "object_default (remove_keys t ks h) = object_default h"
  "array_default (remove_keys t ks h) = array_default h"
  unfolding remove_keys_def by (induction ks arbitrary: h; simp)+

lemma remove_keys_keys:
  "set (keys_obj t (remove_keys t ks h)) = set (keys_obj t h) - set ks"
    unfolding remove_keys_def keys_obj_def
proof (induction ks arbitrary: h)
  case Nil
  then show ?case by simp
next
  case (Cons k ks)
  have "fst ` set (hash_of (remove_obj t k h) t) = fst ` set (hash_of h t) - {k}"
    using keys_delete [of k "hash_of h t"] by simp
  then show ?case using Cons.IH [of "remove_obj t k h"] by auto
qed

lemma remove_keys_all: "hash_of (remove_keys t (keys_obj t h) h) t = []"
  using remove_keys_keys [of t "keys_obj t h" h] by (simp add: keys_obj_def)

text \<open>
  With distinct keys, removing the keys in iteration order emits one
  \<open>itemRemoved(key, value)\<close> per entry, in that order.
\<close>

lemma remove_keys_signals:
  "hash_ok m \<Longrightarrow> hash_of h t = m \<Longrightarrow>
   signals (remove_keys t (map fst m) h) = signals h @ map (\<lambda>(k, v). (t, ItemRemoved k v)) m"
proof (induction m arbitrary: h)
  case Nil
  then show ?case by (simp add: remove_keys_def)
next
  case (Cons p m)
  obtain k v where p: "p = (k, v)" by fastforce
  have k: "k \<notin> fst ` set m" and m: "hash_ok m"
    using Cons.prems(1) by (simp_all add: hash_ok_def p)
  let ?h1 = "remove_obj t k h"
  have h1: "?h1 = erase_obj t (k, v) h" and "hash_of ?h1 t = m"
    using Cons.prems(2) k by (simp_all add: remove_obj_def p)
  then have "signals (remove_keys t (map fst m) ?h1) = signals ?h1 @ map (\<lambda>(k, v). (t, ItemRemoved k v)) m"
    using Cons.IH m by blast
  then show ?case by (simp add: remove_keys_def p h1)
qed

section \<open>clear only deletes\<close>

text \<open>
  \<open>shrinks h h'\<close>: the cells and statics are the same and every container of \<open>h'\<close>
  holds a subset of what it held in \<open>h\<close>.
\<close>

definition shrinks :: "heap \<Rightarrow> heap \<Rightarrow> bool" where
  "shrinks h h' \<longleftrightarrow> vals h' = vals h \<and> cell h' = cell h \<and> object_default h' = object_default h
     \<and> array_default h' = array_default h
     \<and> (\<forall>u. set (succs h' u) \<subseteq> set (succs h u))"

lemma shrinks_refl [simp]: "shrinks h h"
  by (simp add: shrinks_def)

lemma shrinks_trans: "shrinks h h1 \<Longrightarrow> shrinks h1 h2 \<Longrightarrow> shrinks h h2"
  by (auto simp: shrinks_def)

lemma shrinks_remove_obj: "shrinks h (remove_obj t k h)"
proof -
  have "set (map snd (AList.delete k (hash_of h t))) \<subseteq> set (map snd (hash_of h t))"
    by (rule set_values_delete)
  then have "set (succs (remove_obj t k h) u) \<subseteq> set (succs h u)" for u
    by (cases u) (auto simp: remove_obj_def values_obj_def split: option.splits)
  then show ?thesis by (simp add: shrinks_def remove_obj_def split: option.splits)
qed

lemma shrinks_remove_keys: "shrinks h (remove_keys t ks h)"
  unfolding remove_keys_def
proof (induction ks arbitrary: h)
  case Nil
  then show ?case by simp
next
  case (Cons k ks)
  show ?case
    using shrinks_trans [OF shrinks_remove_obj Cons.IH] by simp
qed

lemma shrinks_set_elems_Nil: "shrinks h (set_elems a [] h)"
proof -
  have "set (succs (set_elems a [] h) u) \<subseteq> set (succs h u)" for u
    by (cases u) (simp_all add: values_obj_def)
  then show ?thesis by (simp add: shrinks_def)
qed

lemma clear_shrinks:
  "clear_obj n t h = Some h' \<Longrightarrow> shrinks h h'"
  "clear_arr n a h = Some h' \<Longrightarrow> shrinks h h'"
  "clear_vals n vs h = Some h' \<Longrightarrow> shrinks h h'"
proof (induction n t h and n a h and n vs h arbitrary: h' and h' and h'
       rule: clear_obj_clear_arr_clear_vals.induct)
  case (2 n t h)
  then show ?case
    by (auto split: option.splits intro: shrinks_trans shrinks_remove_keys)
next
  case (4 n a h)
  then show ?case
    by (auto split: option.splits intro: shrinks_trans shrinks_set_elems_Nil)
next
  case (6 n v vs h)
  then show ?case
    by (auto split: if_splits option.splits intro: shrinks_trans)
qed auto

section \<open>clear empties every container below the root\<close>

lemma node_of_cases:
  "isObject (cell h v) \<Longrightarrow> node_of h v = Some (ObjN (toObject (cell h v) d))"
  "isArray (cell h v) \<Longrightarrow> node_of h v = Some (ArrN (toArray (cell h v) d))"
  "\<not> isObject (cell h v) \<Longrightarrow> \<not> isArray (cell h v) \<Longrightarrow> node_of h v = None"
  by (cases "cell h v"; simp add: node_of_def)+

lemma emptied_shrinks: "shrinks g g' \<Longrightarrow> emptied g z \<Longrightarrow> emptied g' z"
  unfolding shrinks_def emptied_def by (metis set_empty subset_empty)

lemma emptied_ObjN: "emptied g (ObjN t) \<longleftrightarrow> hash_of g t = []"
  by (simp add: emptied_def values_obj_def)

lemma succs_remove_keys: "u \<noteq> ObjN t \<Longrightarrow> succs (remove_keys t ks h) u = succs h u"
  by (cases u) (simp_all add: values_obj_def)

lemma succs_set_elems: "u \<noteq> ArrN a \<Longrightarrow> succs (set_elems a xs h) u = succs h u"
  by (cases u) (simp_all add: values_obj_def)

lemma reach_edge: "reach h u z \<Longrightarrow> z = u \<or> (\<exists>w. edge h u w \<and> reach h w z)"
  by (erule reach.cases) auto

text \<open>
  \<open>cleared h0 g\<close>: \<open>g\<close> arose from \<open>h0\<close> by deletions, and every container whose
  contents changed has had everything below it in \<open>h0\<close> emptied. This is the
  invariant of the recursion: a container is first changed by its own \<open>clear\<close>,
  after its children were cleared, so a second visit through a shared handle finds
  it empty and has nothing to do.
\<close>

definition cleared :: "heap \<Rightarrow> heap \<Rightarrow> bool" where
  "cleared h0 g \<longleftrightarrow> shrinks h0 g
     \<and> (\<forall>u. succs g u \<noteq> succs h0 u \<longrightarrow> (\<forall>z. reach h0 u z \<longrightarrow> emptied g z))"

lemma cleared_refl: "cleared h h"
  by (simp add: cleared_def)

lemma cleared_step:
  assumes "cleared h0 g" "shrinks g g'"
    and "\<And>u z. succs g' u \<noteq> succs g u \<Longrightarrow> reach h0 u z \<Longrightarrow> emptied g' z"
  shows "cleared h0 g'"
  using assms unfolding cleared_def by (metis emptied_shrinks shrinks_trans)

lemma cleared_cell: "cleared h0 g \<Longrightarrow> cell g = cell h0"
  by (simp add: cleared_def shrinks_def)

lemma cleared_changed:
  "cleared h0 g \<Longrightarrow> succs g u \<noteq> succs h0 u \<Longrightarrow> reach h0 u z \<Longrightarrow> emptied g z"
  by (simp add: cleared_def)

lemma cleared_below:
  assumes "cleared h0 g" "succs g u = succs h0 u" "reach h0 u z" "z \<noteq> u"
  obtains v w where "v \<in> set (succs g u)" "node_of g v = Some w" "reach h0 w z"
  using assms reach_edge [OF assms(3)] cleared_cell [OF assms(1)]
  by (auto simp: edge_def node_of_def)

lemma clear_cleared:
  "clear_obj n t g = Some g' \<Longrightarrow> cleared h0 g \<Longrightarrow>
     cleared h0 g' \<and> (\<forall>z. reach h0 (ObjN t) z \<longrightarrow> emptied g' z)"
  "clear_arr n a g = Some g' \<Longrightarrow> cleared h0 g \<Longrightarrow>
     cleared h0 g' \<and> (\<forall>z. reach h0 (ArrN a) z \<longrightarrow> emptied g' z)"
  "clear_vals n vs g = Some g' \<Longrightarrow> cleared h0 g \<Longrightarrow>
     cleared h0 g' \<and> (\<forall>v \<in> set vs. \<forall>w z. node_of g v = Some w \<longrightarrow> reach h0 w z \<longrightarrow> emptied g' z)"
proof (induction n t g and n a g and n vs g arbitrary: g' and g' and g'
       rule: clear_obj_clear_arr_clear_vals.induct)
  case (2 n t g)
  show ?case
  proof (cases "succs g (ObjN t) = succs h0 (ObjN t)")
    case same: True
    from "2.prems"(1) obtain g1 where g1: "clear_vals n (values_obj t g) g = Some g1"
      and g': "g' = remove_keys t (keys_obj t g1) g1"
      by (auto split: option.splits)
    have IH: "cleared h0 g1"
      "\<And>v w z. v \<in> set (values_obj t g) \<Longrightarrow> node_of g v = Some w \<Longrightarrow> reach h0 w z \<Longrightarrow> emptied g1 z"
      using "2.IH" [OF g1 "2.prems"(2)] by blast+
    have sh: "shrinks g1 g'" by (simp add: g' shrinks_remove_keys)
    have top: "emptied g' (ObjN t)" by (simp add: g' emptied_ObjN remove_keys_all)
    have below: "emptied g' z" if "reach h0 (ObjN t) z" for z
    proof (cases "z = ObjN t")
      case False
      with cleared_below [OF "2.prems"(2) same that] IH(2) show ?thesis
        by (metis emptied_shrinks sh succs.simps(1))
    qed (simp add: top)
    have "cleared h0 g'"
      by (rule cleared_step [OF IH(1) sh]) (metis below succs_remove_keys g')
    with below show ?thesis by blast
  next
    case changed: False
    have e: "emptied g z" if "reach h0 (ObjN t) z" for z
      using cleared_changed [OF "2.prems"(2) changed that] .
    then have "hash_of g t = []" using emptied_ObjN reach_refl by blast
    then have "g' = g" using "2.prems"(1) by (simp add: values_obj_def keys_obj_def remove_keys_def)
    with e "2.prems"(2) show ?thesis by blast
  qed
next
  case (4 n a g)
  from "4.prems"(1) obtain g1 where g1: "clear_vals n (elems g a) g = Some g1"
    and g': "g' = set_elems a [] g1"
    by (auto split: option.splits)
  show ?case
  proof (cases "succs g (ArrN a) = succs h0 (ArrN a)")
    case same: True
    have IH: "cleared h0 g1"
      "\<And>v w z. v \<in> set (elems g a) \<Longrightarrow> node_of g v = Some w \<Longrightarrow> reach h0 w z \<Longrightarrow> emptied g1 z"
      using "4.IH" [OF g1 "4.prems"(2)] by blast+
    have sh: "shrinks g1 g'" by (simp add: g' shrinks_set_elems_Nil)
    have below: "emptied g' z" if "reach h0 (ArrN a) z" for z
    proof (cases "z = ArrN a")
      case False
      with cleared_below [OF "4.prems"(2) same that] IH(2) show ?thesis
        by (metis emptied_shrinks sh succs.simps(2))
    qed (simp add: g' emptied_def)
    have "cleared h0 g'"
      by (rule cleared_step [OF IH(1) sh]) (metis below succs_set_elems g')
    with below show ?thesis by blast
  next
    case changed: False
    have e: "emptied g z" if "reach h0 (ArrN a) z" for z
      using cleared_changed [OF "4.prems"(2) changed that] .
    then have "elems g a = []" using reach_refl unfolding emptied_def by fastforce
    then have g1g: "g1 = g" using g1 by simp
    have sh: "shrinks g g'" by (simp add: g' g1g shrinks_set_elems_Nil)
    have same: "succs g' u = succs g u" for u
      using \<open>elems g a = []\<close> by (cases "u = ArrN a") (simp_all add: g' g1g succs_set_elems)
    have "cleared h0 g'" using cleared_step [OF "4.prems"(2) sh] same by blast
    with e emptied_shrinks [OF sh] show ?thesis by blast
  qed
next
  case (6 n v vs g)
  show ?case
  proof (cases "isObject (cell g v)")
    case obj: True
    let ?w = "toObject (cell g v) (object_default g)"
    from obj "6.prems"(1) obtain g1 where g1: "clear_obj n ?w g = Some g1"
      and g': "clear_vals n vs g1 = Some g'"
      by (auto split: option.splits)
    have IH1: "cleared h0 g1" "\<And>z. reach h0 (ObjN ?w) z \<Longrightarrow> emptied g1 z"
      using "6.IH"(1) [OF obj g1 "6.prems"(2)] by blast+
    have IH2: "cleared h0 g'"
      "\<And>v' w z. v' \<in> set vs \<Longrightarrow> node_of g1 v' = Some w \<Longrightarrow> reach h0 w z \<Longrightarrow> emptied g' z"
      using "6.IH"(2) [OF obj g1 g' IH1(1)] by blast+
    have c: "node_of g1 = node_of g"
      using cleared_cell [OF IH1(1)] cleared_cell [OF "6.prems"(2)] by (simp add: node_of_def fun_eq_iff)
    have sh: "shrinks g1 g'" using clear_shrinks(3) [OF g'] .
    show ?thesis using IH1(2) IH2 emptied_shrinks [OF sh] node_of_cases(1) [OF obj] c by auto
  next
    case nobj: False
    show ?thesis
    proof (cases "isArray (cell g v)")
      case arr: True
      let ?a = "toArray (cell g v) (array_default g)"
      from nobj arr "6.prems"(1) obtain g1 where g1: "clear_arr n ?a g = Some g1"
        and g': "clear_vals n vs g1 = Some g'"
        by (auto split: option.splits)
      have IH1: "cleared h0 g1" "\<And>z. reach h0 (ArrN ?a) z \<Longrightarrow> emptied g1 z"
        using "6.IH"(3) [OF nobj arr g1 "6.prems"(2)] by blast+
      have IH2: "cleared h0 g'"
        "\<And>v' w z. v' \<in> set vs \<Longrightarrow> node_of g1 v' = Some w \<Longrightarrow> reach h0 w z \<Longrightarrow> emptied g' z"
        using "6.IH"(4) [OF nobj arr g1 g' IH1(1)] by blast+
      have c: "node_of g1 = node_of g"
        using cleared_cell [OF IH1(1)] cleared_cell [OF "6.prems"(2)] by (simp add: node_of_def fun_eq_iff)
      have sh: "shrinks g1 g'" using clear_shrinks(3) [OF g'] .
      show ?thesis using IH1(2) IH2 emptied_shrinks [OF sh] node_of_cases(2) [OF arr] c by auto
    next
      case narr: False
      have g': "clear_vals n vs g = Some g'" using nobj narr "6.prems"(1) by simp
      show ?thesis using "6.IH"(5) [OF nobj narr g' "6.prems"(2)] node_of_cases(3) [OF nobj narr] by auto
    qed
  qed
qed (auto simp: cleared_def)

section \<open>clear changes only what lies below the root\<close>

lemma reach_snoc: "reach h u w \<Longrightarrow> edge h w x \<Longrightarrow> reach h u x"
  by (induction rule: reach.induct) (auto intro: reach.intros)

definition below :: "heap \<Rightarrow> node set \<Rightarrow> node \<Rightarrow> bool" where
  "below h R u \<longleftrightarrow> (\<exists>r \<in> R. reach h r u)"

definition same_at :: "heap \<Rightarrow> heap \<Rightarrow> node \<Rightarrow> bool" where
  "same_at h h' u \<longleftrightarrow>
     (case u of ObjN x \<Rightarrow> hash_of h' x = hash_of h x | ArrN a \<Rightarrow> elems h' a = elems h a)"

text \<open>
  \<open>framed h0 R g\<close>: \<open>g\<close> arose from \<open>h0\<close> by deletions in containers below the
  roots \<open>R\<close>, and the signals it added are \<open>itemRemoved\<close> of objects below \<open>R\<close>.
\<close>

definition removals_below :: "heap \<Rightarrow> node set \<Rightarrow> (oref \<times> event) list \<Rightarrow> bool" where
  "removals_below h0 R es \<longleftrightarrow> (\<forall>e \<in> set es. \<exists>x k v. e = (x, ItemRemoved k v) \<and> below h0 R (ObjN x))"

definition framed :: "heap \<Rightarrow> node set \<Rightarrow> heap \<Rightarrow> bool" where
  "framed h0 R g \<longleftrightarrow> shrinks h0 g \<and> (\<forall>u. \<not> below h0 R u \<longrightarrow> same_at h0 g u)
     \<and> (\<exists>es. signals g = signals h0 @ es \<and> removals_below h0 R es)"

lemma below_edge: "below h R u \<Longrightarrow> edge h u w \<Longrightarrow> below h R w"
  unfolding below_def using reach_snoc by blast

lemma framed_refl: "framed h R h"
  by (auto simp: framed_def same_at_def removals_below_def split: node.splits)

lemma remove_keys_removals:
  "\<exists>es. signals (remove_keys t ks h) = signals h @ es \<and> (\<forall>e \<in> set es. \<exists>k v. e = (t, ItemRemoved k v))"
  unfolding remove_keys_def
proof (induction ks arbitrary: h)
  case Nil
  then show ?case by simp
next
  case (Cons k ks)
  obtain es where es: "signals (fold (remove_obj t) ks (remove_obj t k h)) = signals (remove_obj t k h) @ es"
    "\<forall>e \<in> set es. \<exists>k v. e = (t, ItemRemoved k v)"
    using Cons.IH by blast
  show ?case
  proof (cases "map_of (hash_of h t) k")
    case None
    then have "remove_obj t k h = h" by (simp add: remove_obj_def)
    then show ?thesis using es by auto
  next
    case (Some v)
    then have "signals (remove_obj t k h) = signals h @ [(t, ItemRemoved k v)]"
      by (simp add: remove_obj_def)
    then show ?thesis using es by (intro exI [of _ "(t, ItemRemoved k v) # es"]) auto
  qed
qed

lemma edge_shrinks: "shrinks h0 g \<Longrightarrow> edge g u w \<Longrightarrow> edge h0 u w"
  unfolding shrinks_def edge_def node_of_def by (metis subsetD)

lemma framed_step:
  assumes "framed h0 R g" "shrinks g g'"
    and "\<And>u. \<not> same_at g g' u \<Longrightarrow> below h0 R u"
    and "signals g' = signals g @ es" "removals_below h0 R es"
  shows "framed h0 R g'"
proof -
  have "same_at h0 g' u" if "\<not> below h0 R u" for u
  proof -
    have "same_at h0 g u" using assms(1) that by (simp add: framed_def)
    moreover have "same_at g g' u" using assms(3) that by blast
    ultimately show ?thesis by (cases u) (simp_all add: same_at_def)
  qed
  moreover have "shrinks h0 g'" using assms(1,2) shrinks_trans framed_def by blast
  moreover obtain es0 where "signals g = signals h0 @ es0" "removals_below h0 R es0"
    using assms(1) framed_def by blast
  then have "signals g' = signals h0 @ (es0 @ es) \<and> removals_below h0 R (es0 @ es)"
    using assms(4,5) unfolding removals_below_def by auto
  ultimately show ?thesis unfolding framed_def by blast
qed

lemma framed_node_of: "framed h0 R g \<Longrightarrow> node_of g = node_of h0"
  by (simp add: framed_def shrinks_def node_of_def fun_eq_iff)

lemma framed_child:
  assumes "framed h0 R g" "below h0 R u" "v \<in> set (succs g u)" "node_of g v = Some w"
  shows "below h0 R w"
proof -
  have "edge h0 u w"
    using assms(1,3,4) edge_shrinks [of h0 g u w] by (auto simp: framed_def edge_def)
  then show ?thesis using below_edge assms(2) by blast
qed

lemma same_at_remove_keys: "u \<noteq> ObjN t \<Longrightarrow> same_at g (remove_keys t ks g) u"
  by (cases u) (auto simp: same_at_def)

lemma same_at_set_elems: "u \<noteq> ArrN a \<Longrightarrow> same_at g (set_elems a xs g) u"
  by (cases u) (auto simp: same_at_def)

lemma clear_framed:
  "clear_obj n t g = Some g' \<Longrightarrow> framed h0 R g \<Longrightarrow> below h0 R (ObjN t) \<Longrightarrow> framed h0 R g'"
  "clear_arr n a g = Some g' \<Longrightarrow> framed h0 R g \<Longrightarrow> below h0 R (ArrN a) \<Longrightarrow> framed h0 R g'"
  "clear_vals n vs g = Some g' \<Longrightarrow> framed h0 R g \<Longrightarrow>
     (\<forall>v \<in> set vs. \<forall>w. node_of g v = Some w \<longrightarrow> below h0 R w) \<Longrightarrow> framed h0 R g'"
proof (induction n t g and n a g and n vs g arbitrary: g' and g' and g'
       rule: clear_obj_clear_arr_clear_vals.induct)
  case (2 n t g)
  from "2.prems"(1) obtain g1 where g1: "clear_vals n (values_obj t g) g = Some g1"
    and g': "g' = remove_keys t (keys_obj t g1) g1"
    by (auto split: option.splits)
  have "framed h0 R g1"
    using "2.IH" [OF g1 "2.prems"(2)] framed_child [OF "2.prems"(2,3)] by simp
  moreover obtain es where "signals g' = signals g1 @ es" "\<forall>e \<in> set es. \<exists>k v. e = (t, ItemRemoved k v)"
    using remove_keys_removals g' by blast
  moreover have "removals_below h0 R es"
    using calculation(3) "2.prems"(3) by (auto simp: removals_below_def)
  ultimately show ?case
    using framed_step [of h0 R g1 g' es] "2.prems"(3) same_at_remove_keys
    by (metis g' shrinks_remove_keys)
next
  case (4 n a g)
  from "4.prems"(1) obtain g1 where g1: "clear_vals n (elems g a) g = Some g1"
    and g': "g' = set_elems a [] g1"
    by (auto split: option.splits)
  have "framed h0 R g1"
    using "4.IH" [OF g1 "4.prems"(2)] framed_child [OF "4.prems"(2,3)] by simp
  then show ?case
    using framed_step [of h0 R g1 g' "[]"] "4.prems"(3) same_at_set_elems
    by (simp add: g' shrinks_set_elems_Nil removals_below_def) (metis g')
next
  case (6 n v vs g)
  have c: "framed h0 R g1 \<Longrightarrow> node_of g1 = node_of g" for g1
    using framed_node_of "6.prems"(2) by metis
  show ?case
  proof (cases "isObject (cell g v)")
    case obj: True
    let ?w = "toObject (cell g v) (object_default g)"
    from obj "6.prems"(1) obtain g1 where g1: "clear_obj n ?w g = Some g1"
      and g': "clear_vals n vs g1 = Some g'"
      by (auto split: option.splits)
    have "framed h0 R g1"
      using "6.IH"(1) [OF obj g1 "6.prems"(2)] "6.prems"(3) node_of_cases(1) [OF obj] by simp
    then show ?thesis using "6.IH"(2) [OF obj g1 g'] "6.prems"(3) c by simp
  next
    case nobj: False
    show ?thesis
    proof (cases "isArray (cell g v)")
      case arr: True
      let ?a = "toArray (cell g v) (array_default g)"
      from nobj arr "6.prems"(1) obtain g1 where g1: "clear_arr n ?a g = Some g1"
        and g': "clear_vals n vs g1 = Some g'"
        by (auto split: option.splits)
      have "framed h0 R g1"
        using "6.IH"(3) [OF nobj arr g1 "6.prems"(2)] "6.prems"(3) node_of_cases(2) [OF arr] by simp
      then show ?thesis using "6.IH"(4) [OF nobj arr g1 g'] "6.prems"(3) c by simp
    next
      case narr: False
      then show ?thesis using nobj "6.IH"(5) "6.prems" by simp
    qed
  qed
qed auto

section \<open>clear returns on a heap without cycles below the root\<close>

lemma shrinks_node_of: "shrinks h g \<Longrightarrow> node_of g = node_of h"
  by (simp add: shrinks_def node_of_def fun_eq_iff)

text \<open>
  A ranking of the containers below \<open>r\<close> that decreases along every edge bounds
  the depth of the recursion: fuel above the root's rank is enough. The heap may change
  during the recursion, but it only shrinks, so the ranking stays valid.
\<close>

lemma clear_total:
  assumes rank: "\<forall>u w. reach h r u \<longrightarrow> edge h u w \<longrightarrow> rank w < rank u"
  shows "shrinks h g \<Longrightarrow> reach h r (ObjN t) \<Longrightarrow> rank (ObjN t) < n \<Longrightarrow> \<exists>g'. clear_obj n t g = Some g'"
    and "shrinks h g \<Longrightarrow> reach h r (ArrN a) \<Longrightarrow> rank (ArrN a) < n \<Longrightarrow> \<exists>g'. clear_arr n a g = Some g'"
    and "shrinks h g \<Longrightarrow> (\<forall>v \<in> set vs. \<forall>w. node_of g v = Some w \<longrightarrow> reach h r w \<and> rank w < n) \<Longrightarrow>
         \<exists>g'. clear_vals n vs g = Some g'"
proof (induction n t g and n a g and n vs g rule: clear_obj_clear_arr_clear_vals.induct)
  case (2 n t g)
  have "reach h r w \<and> rank w < n" if "v \<in> set (values_obj t g)" "node_of g v = Some w" for v w
  proof -
    have "edge g (ObjN t) w" using that unfolding edge_def by (metis succs.simps(1))
    then have "edge h (ObjN t) w" by (rule edge_shrinks [OF "2.prems"(1)])
    then show ?thesis using rank "2.prems"(2,3) reach_snoc by fastforce
  qed
  then show ?case using "2.IH" [OF "2.prems"(1)] by auto
next
  case (4 n a g)
  have "reach h r w \<and> rank w < n" if "v \<in> set (elems g a)" "node_of g v = Some w" for v w
  proof -
    have "edge g (ArrN a) w" using that unfolding edge_def by (metis succs.simps(2))
    then have "edge h (ArrN a) w" by (rule edge_shrinks [OF "4.prems"(1)])
    then show ?thesis using rank "4.prems"(2,3) reach_snoc by fastforce
  qed
  then show ?case using "4.IH" [OF "4.prems"(1)] by auto
next
  case (6 n v vs g)
  have sh: "shrinks h g1 \<and> node_of g1 = node_of g" if "shrinks g g1" for g1
    using "6.prems"(1) that shrinks_trans shrinks_node_of by metis
  show ?case
  proof (cases "isObject (cell g v)")
    case obj: True
    let ?w = "toObject (cell g v) (object_default g)"
    obtain g1 where g1: "clear_obj n ?w g = Some g1"
      using "6.IH"(1) [OF obj "6.prems"(1)] "6.prems"(2) node_of_cases(1) [OF obj] by auto
    then obtain g' where "clear_vals n vs g1 = Some g'"
      using "6.IH"(2) [OF obj g1] sh [OF clear_shrinks(1) [OF g1]] "6.prems"(2) by auto
    then show ?thesis using obj g1 by simp
  next
    case nobj: False
    show ?thesis
    proof (cases "isArray (cell g v)")
      case arr: True
      let ?a = "toArray (cell g v) (array_default g)"
      obtain g1 where g1: "clear_arr n ?a g = Some g1"
        using "6.IH"(3) [OF nobj arr "6.prems"(1)] "6.prems"(2) node_of_cases(2) [OF arr] by auto
      then obtain g' where "clear_vals n vs g1 = Some g'"
        using "6.IH"(4) [OF nobj arr g1] sh [OF clear_shrinks(2) [OF g1]] "6.prems"(2) by auto
      then show ?thesis using nobj arr g1 by simp
    next
      case narr: False
      then show ?thesis using nobj "6.IH"(5) "6.prems" by simp
    qed
  qed
qed auto

section \<open>A document with a shared nested object and a nested array\<close>

text \<open>
  Object 10 is \<open>{"o": {"y": 1}, "p": <the same object>, "a": [true, {"z": "s"}], "n": 3}\<close>:
  keys \<open>"o"\<close> and \<open>"p"\<close> hold two handles (11, 14) to one object 20. Object 50 lies
  outside the document and shares the scalar cell 13 with it.
\<close>

definition clear_heap :: heap where
  "clear_heap =
     \<lparr>vals = [0 \<mapsto> JNull, 11 \<mapsto> JObject 20, 14 \<mapsto> JObject 20, 21 \<mapsto> JDouble 1,
              12 \<mapsto> JArray 30, 22 \<mapsto> JBool True, 23 \<mapsto> JObject 40,
              24 \<mapsto> JString ''s'', 13 \<mapsto> JDouble 3],
      objs = [2 \<mapsto> [], 10 \<mapsto> [(''o'', 11), (''p'', 14), (''a'', 12), (''n'', 13)],
              20 \<mapsto> [(''y'', 21)], 40 \<mapsto> [(''z'', 24)], 50 \<mapsto> [(''q'', 13)]],
      arrs = [1 \<mapsto> [], 30 \<mapsto> [22, 23]], lim = 60, signals = [],
      null_default = 0, array_default = 1, object_default = 2\<rparr>"

lemma reach_closed:
  "reach h u w \<Longrightarrow> u \<in> S \<Longrightarrow> (\<And>x y. x \<in> S \<Longrightarrow> edge h x y \<Longrightarrow> y \<in> S) \<Longrightarrow> w \<in> S"
  by (induction rule: reach.induct) auto

lemma clear_heap_edges:
  "edge clear_heap (ObjN 10) y \<longleftrightarrow> y = ObjN 20 \<or> y = ArrN 30"
  "edge clear_heap (ArrN 30) y \<longleftrightarrow> y = ObjN 40"
  "edge clear_heap (ObjN 20) y \<longleftrightarrow> False"
  "edge clear_heap (ObjN 40) y \<longleftrightarrow> False"
  by (auto simp: edge_def clear_heap_def values_obj_def hash_of_def elems_def node_of_def cell_def)

lemma clear_heap_below:
  "reach clear_heap (ObjN 10) u \<Longrightarrow> u \<in> {ObjN 10, ObjN 20, ArrN 30, ObjN 40}"
  by (erule reach_closed) (auto simp: clear_heap_edges)

lemma clear_heap_wf: "heap_wf clear_heap"
  by (auto simp: clear_heap_def heap_wf_def bounded_def statics_ok_def hashes_ok_def arrays_ok_def
      payloads_ok_def hash_of_def cell_def elems_def hash_ok_def)

lemma clear_heap_run:
  "clear_obj 3 10 clear_heap \<noteq> None"
  by (simp add: eval_nat_numeral clear_heap_def values_obj_def keys_obj_def hash_of_def elems_def cell_def
      remove_keys_def remove_obj_def erase_obj_def)

definition loop_heap :: heap where
  "loop_heap =
     \<lparr>vals = [0 \<mapsto> JNull, 11 \<mapsto> JObject 10], objs = [2 \<mapsto> [], 10 \<mapsto> [(''self'', 11)]],
      arrs = [1 \<mapsto> []], lim = 20, signals = [],
      null_default = 0, array_default = 1, object_default = 2\<rparr>"

text \<open>
  What a returning \<open>clear()\<close> does, in one statement: no value cell changes, every
  container reachable from the receiver is empty, and every other container keeps its
  contents.
\<close>

lemma clear_obj_result:
  assumes "clear_obj n t h = Some h'"
  shows "cell h' = cell h \<and> (\<forall>u. reach h (ObjN t) u \<longrightarrow> emptied h' u)
    \<and> (\<forall>x. \<not> reach h (ObjN t) (ObjN x) \<longrightarrow> hash_of h' x = hash_of h x)
    \<and> (\<forall>a. \<not> reach h (ObjN t) (ArrN a) \<longrightarrow> elems h' a = elems h a)"
proof -
  have "framed h {ObjN t} h'"
    using clear_framed(1) [OF assms framed_refl] by (simp add: below_def reach_refl)
  moreover have "\<forall>u. reach h (ObjN t) u \<longrightarrow> emptied h' u"
    using clear_cleared(1) [OF assms cleared_refl] by blast
  ultimately show ?thesis
    by (auto simp: framed_def shrinks_def below_def same_at_def split: node.splits)
qed

lemma emptied_count: "emptied h (ObjN x) \<longleftrightarrow> count_obj x h = 0"
  by (simp add: emptied_def count_obj_def values_obj_def)

section \<open>Properties of clear\<close>

text \<open>
  C20: when \<open>clear()\<close> returns, every container reachable from the receiver, through
  object entries and array elements, is empty: \<open>count() = 0\<close> for each object and
  an empty list for each array. This holds also when one nested object is reached
  through several handles.
\<close>

theorem clear_obj_empties:
  assumes "clear_obj n t h = Some h'" and "reach h (ObjN t) u"
  shows "case u of ObjN x \<Rightarrow> count_obj x h' = 0 | ArrN a \<Rightarrow> elems h' a = []"
proof -
  have "emptied h' u" using clear_obj_result [OF assms(1)] assms(2) by blast
  then show ?thesis by (cases u) (simp_all add: emptied_count, simp add: emptied_def)
qed

text \<open>
  C21: \<open>clear()\<close> returns when the containers below the receiver have a ranking that
  decreases along every entry (the document has no cycle), given fuel above the
  receiver's rank.
\<close>

theorem clear_obj_terminates:
  assumes "\<forall>u w. reach h (ObjN t) u \<longrightarrow> edge h u w \<longrightarrow> rank w < rank u"
    and "rank (ObjN t) < n"
  shows "\<exists>h'. clear_obj n t h = Some h'"
  using clear_total(1) [OF assms(1) shrinks_refl reach_refl assms(2)] .

text \<open>
  C22: \<open>clear()\<close> writes no value cell, and every object and array that is not
  reachable from the receiver keeps its contents.
\<close>

theorem clear_obj_frame:
  assumes "clear_obj n t h = Some h'"
  shows "cell h' = cell h
    \<and> (\<forall>x. \<not> reach h (ObjN t) (ObjN x) \<longrightarrow> hash_of h' x = hash_of h x)
    \<and> (\<forall>a. \<not> reach h (ObjN t) (ArrN a) \<longrightarrow> elems h' a = elems h a)"
  using clear_obj_result [OF assms] by blast

text \<open>
  C23: the signals of \<open>clear()\<close>. When the receiver is not below its own children,
  the nested clears emit only \<open>itemRemoved\<close> of other objects, and then the
  receiver emits one \<open>itemRemoved(key, value)\<close> per entry, in iteration order:
  a removal through \<open>remove\<close>, not a silent reset.
\<close>

theorem clear_obj_signals:
  assumes run: "clear_obj n t h = Some h'" and wf: "heap_wf h"
    and tree: "\<forall>w. edge h (ObjN t) w \<longrightarrow> \<not> reach h w (ObjN t)"
  shows "\<exists>es. signals h' = signals h @ es @ map (\<lambda>(k, v). (t, ItemRemoved k v)) (hash_of h t)
           \<and> (\<forall>e \<in> set es. fst e \<noteq> t \<and> (\<exists>k v. snd e = ItemRemoved k v))"
proof -
  obtain m where n: "n = Suc m" using run by (cases n) auto
  from run obtain g1 where g1: "clear_vals m (values_obj t h) h = Some g1"
    and h': "h' = remove_keys t (keys_obj t g1) g1"
    by (auto simp: n split: option.splits)
  let ?R = "{w. edge h (ObjN t) w}"
  have "framed h ?R g1"
    by (rule clear_framed(3) [OF g1 framed_refl]) (auto simp: below_def edge_def intro: reach_refl)
  moreover have nb: "\<not> below h ?R (ObjN t)" using tree by (auto simp: below_def)
  ultimately have same: "hash_of g1 t = hash_of h t"
    and "\<exists>es. signals g1 = signals h @ es \<and> removals_below h ?R es"
    unfolding framed_def same_at_def by force+
  then obtain es where es: "signals g1 = signals h @ es" "removals_below h ?R es" by blast
  have ok: "hash_ok (hash_of h t)"
    using heap_wf_hash_ok [OF wf] by (cases "t \<in> dom (objs h)") (auto simp: hash_of_def split: option.splits)
  have "signals h' = signals g1 @ map (\<lambda>(k, v). (t, ItemRemoved k v)) (hash_of h t)"
    using remove_keys_signals [OF ok same] by (simp add: h' keys_obj_def same)
  moreover have "\<forall>e \<in> set es. fst e \<noteq> t \<and> (\<exists>k v. snd e = ItemRemoved k v)"
    using es(2) nb unfolding removals_below_def by fastforce
  ultimately show ?thesis using es(1) by auto
qed

text \<open>
  C24: \<open>clear()\<close> on an object whose first entry holds the object itself recurses
  without end (in C++, until the stack overflows): no fuel suffices.
\<close>

theorem clear_self_loop:
  "values_obj t h = v # vs \<Longrightarrow> cell h v = JObject t \<Longrightarrow> clear_obj n t h = None"
  by (induction n) simp_all

section \<open>Witnesses\<close>

lemma clear_heap_reach:
  "reach clear_heap (ObjN 10) (ObjN 20)" "reach clear_heap (ObjN 10) (ArrN 30)"
  "reach clear_heap (ObjN 10) (ObjN 40)"
proof -
  have e: "edge clear_heap (ObjN 10) (ObjN 20)" "edge clear_heap (ObjN 10) (ArrN 30)"
    "edge clear_heap (ArrN 30) (ObjN 40)"
    by (simp_all add: clear_heap_edges)
  show "reach clear_heap (ObjN 10) (ObjN 20)" "reach clear_heap (ObjN 10) (ArrN 30)"
    using e(1,2) by (auto intro: reach_step reach_refl)
  show "reach clear_heap (ObjN 10) (ObjN 40)"
    using e by (blast intro: reach_step reach_refl)
qed

lemma clear_heap_result: "clear_obj 3 10 clear_heap = Some (the (clear_obj 3 10 clear_heap))"
  using clear_heap_run by auto

lemma clear_obj_empties_witness:
  "count_obj 20 (the (clear_obj 3 10 clear_heap)) = 0
   \<and> count_obj 40 (the (clear_obj 3 10 clear_heap)) = 0
   \<and> elems (the (clear_obj 3 10 clear_heap)) 30 = []"
  using clear_obj_empties [OF clear_heap_result clear_heap_reach(1)]
    clear_obj_empties [OF clear_heap_result clear_heap_reach(3)]
    clear_obj_empties [OF clear_heap_result clear_heap_reach(2)]
  by simp

lemma clear_obj_terminates_witness: "\<exists>h'. clear_obj 3 10 clear_heap = Some h'"
proof (rule clear_obj_terminates [where rank = "\<lambda>u. if u = ObjN 10 then 2 else if u = ArrN 30 then 1 else 0"])
  show "\<forall>u w. reach clear_heap (ObjN 10) u \<longrightarrow> edge clear_heap u w \<longrightarrow>
      (if w = ObjN 10 then 2 else if w = ArrN 30 then 1 else 0)
        < (if u = ObjN 10 then (2::nat) else if u = ArrN 30 then 1 else 0)"
    using clear_heap_below by (fastforce simp: clear_heap_edges)
qed simp

lemma clear_obj_frame_witness:
  "hash_of (the (clear_obj 3 10 clear_heap)) 50 = [(''q'', 13)]
   \<and> cell (the (clear_obj 3 10 clear_heap)) 13 = JDouble 3"
proof -
  obtain h' where h': "the (clear_obj 3 10 clear_heap) = h'" by blast
  have nr: "\<not> reach clear_heap (ObjN 10) (ObjN 50)" using clear_heap_below by fastforce
  have "cell h' = cell clear_heap \<and> hash_of h' 50 = hash_of clear_heap 50"
    using clear_obj_frame [OF clear_heap_result] nr unfolding h' by blast
  then show ?thesis unfolding h' by (simp add: clear_heap_def hash_of_def cell_def)
qed

lemma clear_obj_signals_witness:
  "\<exists>es. signals (the (clear_obj 3 10 clear_heap)) =
     es @ [(10, ItemRemoved ''o'' 11), (10, ItemRemoved ''p'' 14), (10, ItemRemoved ''a'' 12),
           (10, ItemRemoved ''n'' 13)]"
proof -
  have "\<not> reach clear_heap w (ObjN 10)" if "edge clear_heap (ObjN 10) w" for w
  proof
    assume r: "reach clear_heap w (ObjN 10)"
    from that have "w = ObjN 20 \<or> w = ArrN 30" by (simp add: clear_heap_edges)
    then show False
    proof
      assume "w = ObjN 20"
      then show False using reach_closed [OF r, of "{ObjN 20}"] by (auto simp: clear_heap_edges)
    next
      assume "w = ArrN 30"
      moreover have "y \<in> {ArrN 30, ObjN 40}" if "x \<in> {ArrN 30, ObjN 40}" "edge clear_heap x y" for x y
        using that by (auto simp: clear_heap_edges)
      ultimately show False using reach_closed [OF r, of "{ArrN 30, ObjN 40}"] by auto
    qed
  qed
  then show ?thesis
    using clear_obj_signals [OF clear_heap_result clear_heap_wf]
    by (auto simp: clear_heap_def hash_of_def)
qed

lemma clear_self_loop_witness: "heap_wf loop_heap \<and> (\<forall>n. clear_obj n 10 loop_heap = None)"
proof
  show "heap_wf loop_heap"
    by (auto simp: loop_heap_def heap_wf_def bounded_def statics_ok_def hashes_ok_def arrays_ok_def
        payloads_ok_def hash_of_def cell_def elems_def hash_ok_def)
  show "\<forall>n. clear_obj n 10 loop_heap = None"
    using clear_self_loop [of 10 loop_heap 11 "[]"]
    by (simp add: loop_heap_def values_obj_def hash_of_def cell_def)
qed

end
