(* ===== verification/JsonNumeric.thy ===== *)
theory JsonNumeric
  imports JsonObject "HOL-Library.Word"
begin

text \<open>
  The integer typed accessors of \<open>QMJsonObject\<close> (src/src/core/qmjsonobject.cpp,
  lines 354--402 and 409--457) and the integer and float setters (lines 484--537).
  Each is \<open>this->value(key)->toX()\<close>, \<open>this->value(key)->toX(default)\<close> or
  \<open>this->value(key)->fromX(value)\<close>, so it shares the shape of \<open>toDouble\<close> and
  \<open>fromDouble\<close>: a missing key reads and writes the shared static.
  The conversions of \<open>QMJsonValue\<close> are modelled from the specification (section 4.1:
  a value holds a number as a \<open>double\<close>) and from the C++ conversions they perform.
  A C++ width is a word of that many bits (LP64: \<open>long\<close> has 64 bits); \<open>char\<close> is
  signed. \<open>fromX\<close> converts the integer to \<open>double\<close>: exact up to 53 significant bits,
  otherwise rounded to the nearest double, ties to even (\<open>double_of_int\<close>), as IEEE
  binary64 does in the default rounding mode. \<open>toX\<close> truncates the stored number toward
  zero; when the result does not fit the width, the C++ conversion is undefined, and the
  getter's result is \<open>None\<close>. Stored numbers are \<open>real\<close>s; a stored \<open>double\<close> is
  one of them, so the rounding of the setters is the only rounding the accessors do.
  The float getters \<open>toFloat\<close> (lines 349--352, 404--407) narrow a \<open>double\<close> to a
  \<open>float\<close>, a rounding to 24 bits with overflow to infinity that the value model,
  which has no infinities, does not express; they are not modelled.
\<close>

type_synonym c_char = "8 word"
type_synonym c_short = "16 word"
type_synonym c_int = "32 word"
type_synonym c_long = "64 word"

section \<open>Integer to double\<close>

text \<open>
  \<open>nbits m\<close> is the number of significant bits of \<open>m\<close>; \<open>round_mant p m\<close> rounds
  \<open>m\<close> to \<open>p\<close> significant bits, to nearest with ties to even; \<open>double_of_int\<close> is the
  value of \<open>(double) i\<close> for an integer of at most 64 bits (no overflow: every such
  integer is below the largest double).
\<close>

fun nbits :: "nat \<Rightarrow> nat" where
  "nbits n = (if n = 0 then 0 else Suc (nbits (n div 2)))"

declare nbits.simps [simp del]

definition round_mant :: "nat \<Rightarrow> nat \<Rightarrow> nat" where
  "round_mant p m =
     (if nbits m \<le> p then m
      else let s = nbits m - p; q = m div 2 ^ s; r = m mod 2 ^ s in
        (if 2 ^ (s - 1) < r \<or> (r = 2 ^ (s - 1) \<and> odd q) then q + 1 else q) * 2 ^ s)"

definition double_of_int :: "int \<Rightarrow> int" where
  "double_of_int i =
     (if i < 0 then - int (round_mant 53 (nat (- i))) else int (round_mant 53 (nat i)))"

section \<open>The conversions of a value\<close>

definition trunc_real :: "real \<Rightarrow> int" where
  "trunc_real x = (if 0 \<le> x then \<lfloor>x\<rfloor> else \<lceil>x\<rceil>)"

datatype signedness = Signed | Unsigned

text \<open>The integers a C++ type of \<open>n\<close> bits and the given signedness represents.\<close>

fun in_range :: "signedness \<Rightarrow> nat \<Rightarrow> int \<Rightarrow> bool" where
  "in_range Signed n i = (- (2 ^ (n - 1)) \<le> i \<and> i < 2 ^ (n - 1))"
| "in_range Unsigned n i = (0 \<le> i \<and> i < 2 ^ n)"

text \<open>
  \<open>toX(d)\<close> of a value: the number truncated toward zero when it fits the width,
  undefined (\<open>None\<close>) when it does not, \<open>d\<close> when the value is not a number.
\<close>

fun toWord :: "signedness \<Rightarrow> jvalue \<Rightarrow> 'a::len word \<Rightarrow> 'a word option" where
  "toWord sg (JDouble x) d =
     (if in_range sg LENGTH('a) (trunc_real x) then Some (word_of_int (trunc_real x)) else None)"
| "toWord sg _ d = Some d"

definition fromSigned :: "'a::len word \<Rightarrow> jvalue \<Rightarrow> bool \<times> jvalue" where
  "fromSigned w = set_value (JDouble (of_int (double_of_int (sint w))))"

definition fromUnsigned :: "'a::len word \<Rightarrow> jvalue \<Rightarrow> bool \<times> jvalue" where
  "fromUnsigned w = set_value (JDouble (of_int (double_of_int (uint w))))"

text \<open>\<open>fromFloat\<close>: widening a \<open>float\<close> to \<open>double\<close> is exact.\<close>

definition fromFloat :: "real \<Rightarrow> jvalue \<Rightarrow> bool \<times> jvalue" where
  "fromFloat x = set_value (JDouble x)"

section \<open>The accessors of the object\<close>

text \<open>The common shape of \<open>toChar\<close> \<dots> \<open>toULongLong\<close>, with and without default.\<close>

definition toWord_obj :: "signedness \<Rightarrow> oref \<Rightarrow> key \<Rightarrow> 'a::len word \<Rightarrow> heap \<Rightarrow> 'a word option" where
  "toWord_obj sg t k d h = toWord sg (cell h (value_obj t k h)) d"

definition toChar_obj :: "oref \<Rightarrow> key \<Rightarrow> heap \<Rightarrow> c_char option" where
  "toChar_obj t k = toWord_obj Signed t k 0"

definition toUChar_obj :: "oref \<Rightarrow> key \<Rightarrow> heap \<Rightarrow> c_char option" where
  "toUChar_obj t k = toWord_obj Unsigned t k 0"

definition toShort_obj :: "oref \<Rightarrow> key \<Rightarrow> heap \<Rightarrow> c_short option" where
  "toShort_obj t k = toWord_obj Signed t k 0"

definition toUShort_obj :: "oref \<Rightarrow> key \<Rightarrow> heap \<Rightarrow> c_short option" where
  "toUShort_obj t k = toWord_obj Unsigned t k 0"

definition toInt_obj :: "oref \<Rightarrow> key \<Rightarrow> heap \<Rightarrow> c_int option" where
  "toInt_obj t k = toWord_obj Signed t k 0"

definition toUInt_obj :: "oref \<Rightarrow> key \<Rightarrow> heap \<Rightarrow> c_int option" where
  "toUInt_obj t k = toWord_obj Unsigned t k 0"

definition toLong_obj :: "oref \<Rightarrow> key \<Rightarrow> heap \<Rightarrow> c_long option" where
  "toLong_obj t k = toWord_obj Signed t k 0"

definition toULong_obj :: "oref \<Rightarrow> key \<Rightarrow> heap \<Rightarrow> c_long option" where
  "toULong_obj t k = toWord_obj Unsigned t k 0"

definition toLongLong_obj :: "oref \<Rightarrow> key \<Rightarrow> heap \<Rightarrow> c_long option" where
  "toLongLong_obj t k = toWord_obj Signed t k 0"

definition toULongLong_obj :: "oref \<Rightarrow> key \<Rightarrow> heap \<Rightarrow> c_long option" where
  "toULongLong_obj t k = toWord_obj Unsigned t k 0"

definition toChar_dflt_obj :: "oref \<Rightarrow> key \<Rightarrow> c_char \<Rightarrow> heap \<Rightarrow> c_char option" where
  "toChar_dflt_obj = toWord_obj Signed"

definition toUChar_dflt_obj :: "oref \<Rightarrow> key \<Rightarrow> c_char \<Rightarrow> heap \<Rightarrow> c_char option" where
  "toUChar_dflt_obj = toWord_obj Unsigned"

definition toShort_dflt_obj :: "oref \<Rightarrow> key \<Rightarrow> c_short \<Rightarrow> heap \<Rightarrow> c_short option" where
  "toShort_dflt_obj = toWord_obj Signed"

definition toUShort_dflt_obj :: "oref \<Rightarrow> key \<Rightarrow> c_short \<Rightarrow> heap \<Rightarrow> c_short option" where
  "toUShort_dflt_obj = toWord_obj Unsigned"

definition toInt_dflt_obj :: "oref \<Rightarrow> key \<Rightarrow> c_int \<Rightarrow> heap \<Rightarrow> c_int option" where
  "toInt_dflt_obj = toWord_obj Signed"

definition toUInt_dflt_obj :: "oref \<Rightarrow> key \<Rightarrow> c_int \<Rightarrow> heap \<Rightarrow> c_int option" where
  "toUInt_dflt_obj = toWord_obj Unsigned"

definition toLong_dflt_obj :: "oref \<Rightarrow> key \<Rightarrow> c_long \<Rightarrow> heap \<Rightarrow> c_long option" where
  "toLong_dflt_obj = toWord_obj Signed"

definition toULong_dflt_obj :: "oref \<Rightarrow> key \<Rightarrow> c_long \<Rightarrow> heap \<Rightarrow> c_long option" where
  "toULong_dflt_obj = toWord_obj Unsigned"

definition toLongLong_dflt_obj :: "oref \<Rightarrow> key \<Rightarrow> c_long \<Rightarrow> heap \<Rightarrow> c_long option" where
  "toLongLong_dflt_obj = toWord_obj Signed"

definition toULongLong_dflt_obj :: "oref \<Rightarrow> key \<Rightarrow> c_long \<Rightarrow> heap \<Rightarrow> c_long option" where
  "toULongLong_dflt_obj = toWord_obj Unsigned"

text \<open>\<open>fromFloat\<close> \<dots> \<open>fromULongLong\<close>: signed widths store \<open>sint\<close>, unsigned \<open>uint\<close>.\<close>

definition fromFloat_obj :: "oref \<Rightarrow> key \<Rightarrow> real \<Rightarrow> heap \<Rightarrow> bool \<times> heap" where
  "fromFloat_obj t k x = from_obj (fromFloat x) t k"

definition fromChar_obj :: "oref \<Rightarrow> key \<Rightarrow> c_char \<Rightarrow> heap \<Rightarrow> bool \<times> heap" where
  "fromChar_obj t k w = from_obj (fromSigned w) t k"

definition fromUChar_obj :: "oref \<Rightarrow> key \<Rightarrow> c_char \<Rightarrow> heap \<Rightarrow> bool \<times> heap" where
  "fromUChar_obj t k w = from_obj (fromUnsigned w) t k"

definition fromShort_obj :: "oref \<Rightarrow> key \<Rightarrow> c_short \<Rightarrow> heap \<Rightarrow> bool \<times> heap" where
  "fromShort_obj t k w = from_obj (fromSigned w) t k"

definition fromUShort_obj :: "oref \<Rightarrow> key \<Rightarrow> c_short \<Rightarrow> heap \<Rightarrow> bool \<times> heap" where
  "fromUShort_obj t k w = from_obj (fromUnsigned w) t k"

definition fromInt_obj :: "oref \<Rightarrow> key \<Rightarrow> c_int \<Rightarrow> heap \<Rightarrow> bool \<times> heap" where
  "fromInt_obj t k w = from_obj (fromSigned w) t k"

definition fromUInt_obj :: "oref \<Rightarrow> key \<Rightarrow> c_int \<Rightarrow> heap \<Rightarrow> bool \<times> heap" where
  "fromUInt_obj t k w = from_obj (fromUnsigned w) t k"

definition fromLong_obj :: "oref \<Rightarrow> key \<Rightarrow> c_long \<Rightarrow> heap \<Rightarrow> bool \<times> heap" where
  "fromLong_obj t k w = from_obj (fromSigned w) t k"

definition fromULong_obj :: "oref \<Rightarrow> key \<Rightarrow> c_long \<Rightarrow> heap \<Rightarrow> bool \<times> heap" where
  "fromULong_obj t k w = from_obj (fromUnsigned w) t k"

definition fromLongLong_obj :: "oref \<Rightarrow> key \<Rightarrow> c_long \<Rightarrow> heap \<Rightarrow> bool \<times> heap" where
  "fromLongLong_obj t k w = from_obj (fromSigned w) t k"

definition fromULongLong_obj :: "oref \<Rightarrow> key \<Rightarrow> c_long \<Rightarrow> heap \<Rightarrow> bool \<times> heap" where
  "fromULongLong_obj t k w = from_obj (fromUnsigned w) t k"

section \<open>Rounding an integer to a double\<close>

lemma nbits_0 [simp]: "nbits 0 = 0"
  by (simp add: nbits.simps)

lemma nbits_pos: "m \<noteq> 0 \<Longrightarrow> nbits m = Suc (nbits (m div 2))"
  by (simp add: nbits.simps)

lemma nbits_le_iff: "nbits m \<le> p \<longleftrightarrow> m < 2 ^ p"
proof (induction m arbitrary: p rule: nbits.induct)
  case (1 m)
  show ?case
  proof (cases "m = 0")
    case False
    show ?thesis
    proof (cases p)
      case 0
      then show ?thesis using False by (simp add: nbits_pos)
    next
      case (Suc p')
      have "m div 2 < 2 ^ p' \<longleftrightarrow> m < 2 ^ p' * 2" by (simp add: div_less_iff_less_mult)
      then show ?thesis using "1" [OF False, of p'] False Suc by (simp add: nbits_pos mult.commute)
    qed
  qed simp
qed

lemma nbits_eq: "2 ^ k \<le> m \<Longrightarrow> m < 2 ^ Suc k \<Longrightarrow> nbits m = Suc k"
  using nbits_le_iff [of m k] nbits_le_iff [of m "Suc k"] by simp

lemma less_pow_nbits: "m < 2 ^ nbits m"
  using nbits_le_iff by blast

lemma round_mant_small: "m < 2 ^ p \<Longrightarrow> round_mant p m = m"
  by (simp add: round_mant_def nbits_le_iff)

lemma round_mant_big:
  "nbits m = p + s \<Longrightarrow> 0 < s \<Longrightarrow> round_mant p m =
     (if 2 ^ (s - 1) < m mod 2 ^ s \<or> (m mod 2 ^ s = 2 ^ (s - 1) \<and> odd (m div 2 ^ s))
      then m div 2 ^ s + 1 else m div 2 ^ s) * 2 ^ s"
  by (simp add: round_mant_def Let_def)

lemma round_mant_le_pow: "round_mant p m \<le> 2 ^ nbits m"
proof (cases "nbits m \<le> p")
  case True
  then show ?thesis using less_pow_nbits [of m] by (simp add: round_mant_def)
next
  case False
  define s where "s = nbits m - p"
  have e: "nbits m = p + s" and s: "0 < s" using False by (simp_all add: s_def)
  have "m < 2 ^ p * 2 ^ s" using less_pow_nbits [of m] e by (simp add: power_add)
  then have q: "m div 2 ^ s < 2 ^ p" by (simp add: div_less_iff_less_mult)
  then have "(m div 2 ^ s + 1) * 2 ^ s \<le> 2 ^ p * 2 ^ s"
    by (intro mult_le_mono1) simp
  moreover have "(m div 2 ^ s) * 2 ^ s \<le> 2 ^ p * 2 ^ s"
    using q by simp
  ultimately show ?thesis using q by (simp add: round_mant_big [OF e s] e power_add Suc_le_eq)
qed

lemma round_step_lt:
  fixes q r h b :: nat
  assumes r: "r < 2 * h" and q: "q < b" and b: "even b"
  shows "(if h < r \<or> (r = h \<and> odd q) then q + 1 else q) * (2 * h) < b * (2 * h)
     \<longleftrightarrow> q * (2 * h) + r < b * (2 * h) - h"
proof (cases "Suc q < b")
  case True
  then have "Suc q * (2 * h) \<le> (b - 1) * (2 * h)" by (intro mult_le_mono1) simp
  moreover have "(b - 1) * (2 * h) = b * (2 * h) - 2 * h" by (simp add: diff_mult_distrib)
  moreover have "2 * h \<le> b * (2 * h)" using True by simp
  ultimately show ?thesis using r q True by auto
next
  case False
  then have bq: "b = Suc q" using q by simp
  then have "odd q" using b by simp
  then show ?thesis using r by (simp add: bq)
qed

lemma round_mant_lt_iff:
  assumes p: "0 < p" and k: "p < k" and m: "m < 2 ^ k"
  shows "round_mant p m < 2 ^ k \<longleftrightarrow> m < 2 ^ k - 2 ^ (k - p - 1)"
proof (cases "m < 2 ^ (k - 1)")
  case True
  then have "nbits m \<le> k - 1" by (simp add: nbits_le_iff)
  then have "round_mant p m \<le> 2 ^ (k - 1)"
    using round_mant_le_pow [of p m] by (meson le_trans one_le_numeral power_increasing)
  moreover have "2 ^ (k - 1) < (2::nat) ^ k" using k by simp
  moreover have "(2::nat) ^ (k - p - 1) \<le> 2 ^ (k - 1)" by (simp add: power_increasing)
  moreover have "(2::nat) ^ k = 2 ^ (k - 1) + 2 ^ (k - 1)"
    using k by (cases k) simp_all
  ultimately show ?thesis using True by linarith
next
  case False
  define s where "s = k - p"
  have ks: "k = p + s" and s: "0 < s" using k by (simp_all add: s_def)
  have "nbits m = Suc (k - 1)"
    using False m k by (intro nbits_eq) (simp_all add: not_less)
  then have e: "nbits m = p + s" using ks k by simp
  define h where "h = (2::nat) ^ (s - 1)"
  define q where "q = m div 2 ^ s"
  define r where "r = m mod 2 ^ s"
  have hs: "(2::nat) ^ s = 2 * h" using s by (simp add: h_def power_eq_if)
  have pk: "(2::nat) ^ k = 2 ^ p * (2 * h)" by (simp add: ks power_add hs)
  have kp1: "(2::nat) ^ (k - p - 1) = h" by (simp add: s_def h_def)
  have r: "r < 2 * h" using hs by (metis r_def mod_less_divisor zero_less_numeral zero_less_power)
  have h0: "0 < h" by (simp add: h_def)
  have q: "q < 2 ^ p" using m h0 by (simp add: q_def pk hs div_less_iff_less_mult)
  have mq: "m = q * (2 * h) + r" by (metis q_def r_def div_mult_mod_eq hs)
  have rm: "round_mant p m = (if h < r \<or> (r = h \<and> odd q) then q + 1 else q) * (2 * h)"
    by (simp add: round_mant_big [OF e s] hs h_def q_def r_def)
  have "even ((2::nat) ^ p)" using p by simp
  from round_step_lt [OF r q this] show ?thesis
    by (simp only: rm pk kp1 flip: mq)
qed

lemma round_mant_le_pow2:
  assumes "m \<le> 2 ^ k"
  shows "round_mant p m \<le> 2 ^ k"
proof (cases "m = 2 ^ k")
  case True
  show ?thesis
  proof (cases "Suc k \<le> p")
    case False
    define s where "s = Suc k - p"
    have e: "nbits m = p + s" and s: "0 < s" and sk: "s \<le> Suc k"
      using False True nbits_eq [of k m] by (simp_all add: s_def)
    show ?thesis
    proof (cases "s \<le> k")
      case True
      have "m mod 2 ^ s = 0" using \<open>m = 2 ^ k\<close> True by (simp add: le_imp_power_dvd)
      then show ?thesis using round_mant_big [OF e s] s True \<open>m = 2 ^ k\<close>
        by simp
    next
      case False
      then have "s = Suc k" using sk by simp
      then have "p = 0" using s_def by simp
      then show ?thesis using round_mant_big [OF e s] \<open>s = Suc k\<close> \<open>m = 2 ^ k\<close> by simp
    qed
  qed (simp add: round_mant_small True)
next
  case False
  then have "nbits m \<le> k" using assms by (simp add: nbits_le_iff)
  then show ?thesis
    using round_mant_le_pow [of p m] by (meson le_trans one_le_numeral power_increasing)
qed

lemma double_of_int_exact: "\<bar>i\<bar> < 2 ^ 53 \<Longrightarrow> double_of_int i = i"
proof -
  assume "\<bar>i\<bar> < 2 ^ 53"
  then have "nat \<bar>i\<bar> < 2 ^ 53" by (simp add: nat_less_iff)
  then show ?thesis
    by (cases "i < 0") (simp_all add: double_of_int_def round_mant_small)
qed

lemma double_sint_narrow:
  "LENGTH('a) \<le> 53 \<Longrightarrow> double_of_int (sint (w :: 'a::len word)) = sint w"
proof (rule double_of_int_exact)
  assume n: "LENGTH('a) \<le> 53"
  have "(2::int) ^ (LENGTH('a) - 1) < 2 ^ 53" by (rule power_strict_increasing) (use n in auto)
  then show "\<bar>sint w\<bar> < 2 ^ 53" using sint_ge [of w] sint_lt [of w] by linarith
qed

lemma double_uint_narrow:
  "LENGTH('a) \<le> 53 \<Longrightarrow> double_of_int (uint (w :: 'a::len word)) = uint w"
proof (rule double_of_int_exact)
  assume n: "LENGTH('a) \<le> 53"
  have "(2::int) ^ LENGTH('a) \<le> 2 ^ 53" by (rule power_increasing) (use n in auto)
  then have "uint w < 2 ^ 53" using uint_lt2p [of w] by linarith
  then show "\<bar>uint w\<bar> < 2 ^ 53" by simp
qed

lemma in_range_unsigned_double:
  assumes n: "53 < LENGTH('a)"
  shows "in_range Unsigned LENGTH('a) (double_of_int (uint (w :: 'a::len word)))
     \<longleftrightarrow> uint w < 2 ^ LENGTH('a) - 2 ^ (LENGTH('a) - 54)"
proof -
  have m: "nat (uint w) < 2 ^ LENGTH('a)" using uint_lt2p [of w] by (simp add: nat_less_iff)
  have "int (round_mant 53 (nat (uint w))) < 2 ^ LENGTH('a) \<longleftrightarrow>
        nat (uint w) < 2 ^ LENGTH('a) - 2 ^ (LENGTH('a) - 54)"
    using round_mant_lt_iff [of 53 "LENGTH('a)", OF _ n m] by (simp flip: of_nat_less_iff)
  also have "\<dots> \<longleftrightarrow> uint w < 2 ^ LENGTH('a) - 2 ^ (LENGTH('a) - 54)"
  proof -
    have le: "(2::nat) ^ (LENGTH('a) - 54) \<le> 2 ^ LENGTH('a)" by (rule power_increasing) auto
    have eq: "int (2 ^ LENGTH('a) - 2 ^ (LENGTH('a) - 54)) = 2 ^ LENGTH('a) - 2 ^ (LENGTH('a) - 54)"
      using le by (simp add: of_nat_diff)
    show ?thesis by (simp only: nat_less_iff [OF uint_ge_0] eq)
  qed
  finally show ?thesis by (simp add: double_of_int_def)
qed

lemma in_range_signed_double:
  assumes n: "54 < LENGTH('a)"
  shows "in_range Signed LENGTH('a) (double_of_int (sint (w :: 'a::len word)))
     \<longleftrightarrow> sint w < 2 ^ (LENGTH('a) - 1) - 2 ^ (LENGTH('a) - 55)"
proof (cases "sint w < 0")
  case True
  have "nat (- sint w) \<le> 2 ^ (LENGTH('a) - 1)" using sint_ge [of w] by (simp add: nat_le_iff)
  then have "int (round_mant 53 (nat (- sint w))) \<le> 2 ^ (LENGTH('a) - 1)"
    using round_mant_le_pow2 by (metis of_nat_le_iff of_nat_numeral of_nat_power)
  then have a: "- (2 ^ (LENGTH('a) - 1)) \<le> - int (round_mant 53 (nat (- sint w)))" by linarith
  have b: "- int (round_mant 53 (nat (- sint w))) < 2 ^ (LENGTH('a) - 1)"
    by (smt (verit) of_nat_0_le_iff zero_less_power)
  have "(2::int) ^ (LENGTH('a) - 55) < 2 ^ (LENGTH('a) - 1)"
    by (rule power_strict_increasing) (use n in auto)
  then have c: "sint w < 2 ^ (LENGTH('a) - 1) - 2 ^ (LENGTH('a) - 55)" using True by linarith
  show ?thesis unfolding double_of_int_def if_P [OF True] in_range.simps using a b c by blast
next
  case False
  have m: "nat (sint w) < 2 ^ (LENGTH('a) - 1)" using sint_lt [of w] False by (simp add: nat_less_iff)
  have le: "(2::nat) ^ (LENGTH('a) - 55) \<le> 2 ^ (LENGTH('a) - 1)" by (rule power_increasing) auto
  have eq: "int (2 ^ (LENGTH('a) - 1) - 2 ^ (LENGTH('a) - 55)) = 2 ^ (LENGTH('a) - 1) - 2 ^ (LENGTH('a) - 55)"
    using le by (simp add: of_nat_diff)
  have "int (round_mant 53 (nat (sint w))) < 2 ^ (LENGTH('a) - 1) \<longleftrightarrow>
        nat (sint w) < 2 ^ (LENGTH('a) - 1) - 2 ^ (LENGTH('a) - 1 - 53 - 1)"
    using round_mant_lt_iff [of 53 "LENGTH('a) - 1", OF _ _ m] n by (simp flip: of_nat_less_iff)
  also have "LENGTH('a) - 1 - 53 - 1 = LENGTH('a) - 55" by simp
  moreover have "- (2 ^ (LENGTH('a) - 1)) \<le> int (round_mant 53 (nat (sint w)))"
    by (smt (verit) of_nat_0_le_iff zero_less_power)
  ultimately show ?thesis using False
    by (simp add: double_of_int_def nat_less_iff [OF leI [OF False]] eq)
qed
section \<open>Conversion lemmas\<close>

lemma trunc_real_of_int [simp]: "trunc_real (of_int i) = i"
  by (simp add: trunc_real_def)

lemma trunc_real_of_nat [simp]: "trunc_real (of_nat n) = int n"
  by (simp add: trunc_real_def)

lemma in_range_sint: "in_range Signed LENGTH('a) (sint (w :: 'a::len word))"
  using sint_ge [of w] sint_lt [of w] by simp

lemma in_range_uint: "in_range Unsigned LENGTH('a) (uint (w :: 'a::len word))"
  using uint_lt2p [of w] by simp

lemma word_of_int_in_range:
  assumes "in_range sg LENGTH('a) j"
  shows "(word_of_int j = (w :: 'a::len word)) \<longleftrightarrow> j = (case sg of Signed \<Rightarrow> sint w | Unsigned \<Rightarrow> uint w)"
proof (cases sg)
  case Signed
  then have "sint (word_of_int j :: 'a word) = j"
    using assms by (simp add: sint_sbintrunc' signed_take_bit_int_eq_self)
  with Signed show ?thesis by auto
next
  case Unsigned
  then have "uint (word_of_int j :: 'a word) = j"
    using assms by (simp add: uint_word_of_int take_bit_int_eq_self)
  with Unsigned show ?thesis by auto
qed

lemma from_obj_present_cell:
  assumes "map_of (hash_of h t) k = Some r"
  shows "cell (snd (from_obj f t k h)) (value_obj t k (snd (from_obj f t k h))) = snd (f (cell h r))"
  using assms by (simp add: from_obj_unfold value_obj_def)

text \<open>A getter after a setter of the same width and signedness, on a present key.\<close>

lemma toWord_obj_from_signed:
  assumes "map_of (hash_of h t) k = Some r"
  shows "toWord_obj Signed t k (d :: 'a::len word) (snd (from_obj (fromSigned (w :: 'a word)) t k h)) =
    (if in_range Signed LENGTH('a) (double_of_int (sint w))
     then Some (word_of_int (double_of_int (sint w))) else None)"
  unfolding toWord_obj_def from_obj_present_cell [OF assms] fromSigned_def set_value_def snd_conv
  by simp

lemma toWord_obj_from_unsigned:
  assumes "map_of (hash_of h t) k = Some r"
  shows "toWord_obj Unsigned t k (d :: 'a::len word) (snd (from_obj (fromUnsigned (w :: 'a word)) t k h)) =
    (if in_range Unsigned LENGTH('a) (double_of_int (uint w))
     then Some (word_of_int (double_of_int (uint w))) else None)"
  unfolding toWord_obj_def from_obj_present_cell [OF assms] fromUnsigned_def set_value_def snd_conv
  by simp

lemma roundtrip_signed_iff:
  assumes "map_of (hash_of h t) k = Some r"
  shows "toWord_obj Signed t k d (snd (from_obj (fromSigned w) t k h)) = Some w
     \<longleftrightarrow> double_of_int (sint (w :: 'a::len word)) = sint w"
  using word_of_int_in_range [of Signed "double_of_int (sint w)" w] in_range_sint [of w]
  by (auto simp: toWord_obj_from_signed [OF assms] simp del: in_range.simps)

lemma roundtrip_unsigned_iff:
  assumes "map_of (hash_of h t) k = Some r"
  shows "toWord_obj Unsigned t k d (snd (from_obj (fromUnsigned w) t k h)) = Some w
     \<longleftrightarrow> double_of_int (uint (w :: 'a::len word)) = uint w"
  using word_of_int_in_range [of Unsigned "double_of_int (uint w)" w] in_range_uint [of w]
  by (auto simp: toWord_obj_from_unsigned [OF assms] simp del: in_range.simps)

lemma roundtrip_narrow:
  assumes "map_of (hash_of h t) k = Some r" and "LENGTH('a) \<le> 53"
  shows "toWord_obj Signed t k d (snd (from_obj (fromSigned w) t k h)) = Some (w :: 'a::len word)"
    and "toWord_obj Unsigned t k d (snd (from_obj (fromUnsigned w) t k h)) = Some w"
  using roundtrip_signed_iff [OF assms(1)] roundtrip_unsigned_iff [OF assms(1)]
    double_sint_narrow [OF assms(2)] double_uint_narrow [OF assms(2)] by blast+

lemma undefined_signed_iff:
  assumes "map_of (hash_of h t) k = Some r" and "54 < LENGTH('a)"
  shows "toWord_obj Signed t k (d :: 'a::len word) (snd (from_obj (fromSigned (w :: 'a word)) t k h)) = None
     \<longleftrightarrow> 2 ^ (LENGTH('a) - 1) - 2 ^ (LENGTH('a) - 55) \<le> sint w"
  using in_range_signed_double [OF assms(2), of w]
  by (simp add: toWord_obj_from_signed [OF assms(1)] not_less del: in_range.simps)

lemma undefined_unsigned_iff:
  assumes "map_of (hash_of h t) k = Some r" and "53 < LENGTH('a)"
  shows "toWord_obj Unsigned t k (d :: 'a::len word) (snd (from_obj (fromUnsigned (w :: 'a word)) t k h)) = None
     \<longleftrightarrow> 2 ^ LENGTH('a) - 2 ^ (LENGTH('a) - 54) \<le> uint w"
  using in_range_unsigned_double [OF assms(2), of w]
  by (simp add: toWord_obj_from_unsigned [OF assms(1)] not_less del: in_range.simps)

lemma toDouble_obj_from:
  assumes "map_of (hash_of h t) k = Some r"
  shows "toDouble_obj t k (snd (from_obj (fromSigned w) t k h)) = of_int (double_of_int (sint w))"
    and "toDouble_obj t k (snd (from_obj (fromUnsigned w) t k h)) = of_int (double_of_int (uint w))"
  unfolding toDouble_obj_def from_obj_present_cell [OF assms] fromSigned_def fromUnsigned_def
    set_value_def snd_conv toDouble.simps
  by (rule refl)+

text \<open>Object 3 holds \<open>{"big": 300.7, "neg": -1.9}\<close>.\<close>

definition num_heap :: heap where
  "num_heap =
     \<lparr>vals = [0 \<mapsto> JNull, 4 \<mapsto> JDouble (3007 / 10), 5 \<mapsto> JDouble (- 19 / 10)],
      objs = [2 \<mapsto> [], 3 \<mapsto> [(''big'', 4), (''neg'', 5)]], arrs = [1 \<mapsto> []], lim = 10,
      signals = [], null_default = 0, array_default = 1, object_default = 2\<rparr>"

lemma num_heap_facts:
  "map_of (hash_of num_heap 3) ''big'' = Some 4" "map_of (hash_of num_heap 3) ''neg'' = Some 5"
  "cell num_heap 4 = JDouble (3007 / 10)" "cell num_heap 5 = JDouble (- 19 / 10)"
  "trunc_real (3007 / 10) = 300" "trunc_real (- 19 / 10) = - 1"
  by (simp_all add: num_heap_def hash_of_def cell_def trunc_real_def)

section \<open>Properties of the numeric accessors\<close>

text \<open>
  C25: on a present key, a setter followed by the getter of the same width returns the
  value set for the widths of at most 32 bits; for the 64-bit widths it does exactly
  when the integer is a double, i.e. survives the conversion to \<open>double\<close> unrounded.
\<close>

theorem integer_accessors_roundtrip:
  assumes "map_of (hash_of h t) k = Some r"
  shows "toChar_obj t k (snd (fromChar_obj t k c h)) = Some c
    \<and> toUChar_obj t k (snd (fromUChar_obj t k uc h)) = Some uc
    \<and> toShort_obj t k (snd (fromShort_obj t k s h)) = Some s
    \<and> toUShort_obj t k (snd (fromUShort_obj t k us h)) = Some us
    \<and> toInt_obj t k (snd (fromInt_obj t k i h)) = Some i
    \<and> toUInt_obj t k (snd (fromUInt_obj t k ui h)) = Some ui
    \<and> (toLong_obj t k (snd (fromLong_obj t k l h)) = Some l \<longleftrightarrow> double_of_int (sint l) = sint l)
    \<and> (toULong_obj t k (snd (fromULong_obj t k ul h)) = Some ul \<longleftrightarrow> double_of_int (uint ul) = uint ul)
    \<and> (toLongLong_obj t k (snd (fromLongLong_obj t k ll h)) = Some ll
         \<longleftrightarrow> double_of_int (sint ll) = sint ll)
    \<and> (toULongLong_obj t k (snd (fromULongLong_obj t k ull h)) = Some ull
         \<longleftrightarrow> double_of_int (uint ull) = uint ull)"
  unfolding toChar_obj_def toUChar_obj_def toShort_obj_def toUShort_obj_def toInt_obj_def
    toUInt_obj_def toLong_obj_def toULong_obj_def toLongLong_obj_def toULongLong_obj_def
    fromChar_obj_def fromUChar_obj_def fromShort_obj_def fromUShort_obj_def fromInt_obj_def
    fromUInt_obj_def fromLong_obj_def fromULong_obj_def fromLongLong_obj_def fromULongLong_obj_def
  by (simp add: roundtrip_narrow [OF assms] roundtrip_signed_iff [OF assms]
      roundtrip_unsigned_iff [OF assms])

text \<open>
  C26: the setters store the integer's value as a double: a signed width its
  two's-complement value, an unsigned width its unsigned value, exactly for the widths
  of at most 32 bits (\<open>fromChar(k, 200)\<close> gives -56, \<open>fromUChar(k, 200)\<close> gives
  200), rounded to 53 significant bits for the 64-bit widths, and exactly there too
  when the magnitude is below \<open>2 ^ 53\<close>.
\<close>

theorem integer_setters_store_value:
  assumes "map_of (hash_of h t) k = Some r"
  shows "toDouble_obj t k (snd (fromChar_obj t k c h)) = of_int (sint c)
    \<and> toDouble_obj t k (snd (fromUChar_obj t k c h)) = of_int (uint c)
    \<and> toDouble_obj t k (snd (fromShort_obj t k s h)) = of_int (sint s)
    \<and> toDouble_obj t k (snd (fromUShort_obj t k s h)) = of_int (uint s)
    \<and> toDouble_obj t k (snd (fromInt_obj t k i h)) = of_int (sint i)
    \<and> toDouble_obj t k (snd (fromUInt_obj t k i h)) = of_int (uint i)
    \<and> toDouble_obj t k (snd (fromLongLong_obj t k l h)) = of_int (double_of_int (sint l))
    \<and> toDouble_obj t k (snd (fromULongLong_obj t k l h)) = of_int (double_of_int (uint l))
    \<and> (\<bar>sint l\<bar> < 2 ^ 53 \<longrightarrow> toDouble_obj t k (snd (fromLongLong_obj t k l h)) = of_int (sint l))
    \<and> (uint l < 2 ^ 53 \<longrightarrow> toDouble_obj t k (snd (fromULongLong_obj t k l h)) = of_int (uint l))"
  unfolding fromChar_obj_def fromUChar_obj_def fromShort_obj_def fromUShort_obj_def fromInt_obj_def
      fromUInt_obj_def fromLongLong_obj_def fromULongLong_obj_def
  by (simp add: toDouble_obj_from [OF assms] double_sint_narrow double_uint_narrow double_of_int_exact)

text \<open>
  C27: reading back a large 64-bit value is undefined behaviour: the conversion to
  \<open>double\<close> rounds it up to \<open>2 ^ 63\<close> (signed) or \<open>2 ^ 64\<close> (unsigned), which the
  getter cannot convert back. On a present key, \<open>toLongLong\<close> after
  \<open>fromLongLong(k, v)\<close> is undefined exactly when \<open>v \<ge> 2 ^ 63 - 2 ^ 9\<close>, and
  \<open>toULongLong\<close> after \<open>fromULongLong(k, v)\<close> exactly when \<open>v \<ge> 2 ^ 64 - 2 ^ 10\<close>;
  likewise for \<open>long\<close> and \<open>unsigned long\<close>.
\<close>

theorem longlong_roundtrip_undefined:
  assumes "map_of (hash_of h t) k = Some r"
  shows "(toLongLong_obj t k (snd (fromLongLong_obj t k l h)) = None \<longleftrightarrow> 2 ^ 63 - 2 ^ 9 \<le> sint l)
    \<and> (toULongLong_obj t k (snd (fromULongLong_obj t k l h)) = None \<longleftrightarrow> 2 ^ 64 - 2 ^ 10 \<le> uint l)
    \<and> (toLong_obj t k (snd (fromLong_obj t k l h)) = None \<longleftrightarrow> 2 ^ 63 - 2 ^ 9 \<le> sint l)
    \<and> (toULong_obj t k (snd (fromULong_obj t k l h)) = None \<longleftrightarrow> 2 ^ 64 - 2 ^ 10 \<le> uint l)"
  using undefined_signed_iff [OF assms, of "0 :: c_long" l] undefined_unsigned_iff [OF assms, of "0 :: c_long" l]
  by (simp add: toLongLong_obj_def toULongLong_obj_def toLong_obj_def toULong_obj_def
      fromLongLong_obj_def fromULongLong_obj_def fromLong_obj_def fromULong_obj_def)

section \<open>Witnesses\<close>

lemma double_of_int_2p53: "double_of_int 9007199254740993 = 9007199254740992"
  by (simp add: double_of_int_def round_mant_def nbits.simps)

lemma integer_accessors_roundtrip_witness:
  "toInt_obj 3 ''big'' (snd (fromInt_obj 3 ''big'' (- 7) num_heap)) = Some (- 7)
   \<and> toLongLong_obj 3 ''big'' (snd (fromLongLong_obj 3 ''big'' (2 ^ 53 + 1) num_heap)) \<noteq> Some (2 ^ 53 + 1)"
  using integer_accessors_roundtrip [OF num_heap_facts(1), where i = "- 7" and ll = "2 ^ 53 + 1"]
  by (simp add: double_of_int_2p53)

lemma integer_setters_store_value_witness:
  "toDouble_obj 3 ''big'' (snd (fromChar_obj 3 ''big'' 200 num_heap)) = - 56
   \<and> toDouble_obj 3 ''big'' (snd (fromUChar_obj 3 ''big'' 200 num_heap)) = 200
   \<and> toDouble_obj 3 ''big'' (snd (fromLongLong_obj 3 ''big'' (2 ^ 53 + 1) num_heap)) = 2 ^ 53"
  using integer_setters_store_value [OF num_heap_facts(1), where c = 200 and l = "2 ^ 53 + 1"]
  by (simp add: double_of_int_2p53)

lemma longlong_roundtrip_undefined_witness:
  "toLongLong_obj 3 ''big'' (snd (fromLongLong_obj 3 ''big'' 9223372036854775807 num_heap)) = None
   \<and> toULongLong_obj 3 ''big'' (snd (fromULongLong_obj 3 ''big'' 18446744073709551615 num_heap)) = None
   \<and> toLongLong_obj 3 ''big'' (snd (fromLongLong_obj 3 ''big'' (2 ^ 62) num_heap)) \<noteq> None"
  using longlong_roundtrip_undefined [OF num_heap_facts(1), of 9223372036854775807]
    longlong_roundtrip_undefined [OF num_heap_facts(1), of 18446744073709551615]
    longlong_roundtrip_undefined [OF num_heap_facts(1), of "2 ^ 62"]
  by simp

end
