(* ===== verification/JsonContainer.thy ===== *)
theory JsonContainer
  imports JsonUnite JsonClear
begin

text \<open>
  The container as an abstract data type. The constructors of \<open>QMJsonObject\<close>
  (src/src/core/qmjsonobject.cpp, lines 33--44); an abstract specification of one
  object as a finite map from keys to handles with the notifications each operation
  emits, and the refinement of the concrete operations on the heap to it, for every
  sequence of operations; and the invariant that no object holds the empty key, which
  every operation keeps (the hash constructor copies its argument unchecked, so only
  its caller can keep it there).
\<close>

section \<open>Constructors\<close>

text \<open>
  \<open>QMPointer<QMJsonObject>(new QMJsonObject(...))\<close>: a fresh object handle. The
  default constructor leaves \<open>mHash\<close> empty; \<open>QMJsonObject(const QHash &hash)\<close>
  assigns \<open>mHash = hash\<close> as it is, without the checks of \<open>insert\<close>.
\<close>

definition new_obj :: "vref hash \<Rightarrow> heap \<Rightarrow> oref \<times> heap" where
  "new_obj m h = (lim h, h\<lparr>objs := (objs h)(lim h \<mapsto> m), lim := Suc (lim h)\<rparr>)"

definition QMJsonObject_new :: "heap \<Rightarrow> oref \<times> heap" where
  "QMJsonObject_new h = new_obj [] h"

definition QMJsonObject_from_hash :: "vref hash \<Rightarrow> heap \<Rightarrow> oref \<times> heap" where
  "QMJsonObject_from_hash m h = new_obj m h"

section \<open>The abstract container\<close>

text \<open>
  One object is a finite map from keys to handles. The operations that change it,
  with the notifications the specification (section 4.2) requires of each: \<open>insert\<close>
  of a non-empty key adds or, under \<open>Replace\<close>, replaces with \<open>itemRemoved\<close> of the
  old entry before \<open>itemAdded\<close> of the new one; \<open>remove\<close>, \<open>take\<close> and
  \<open>take(key, default)\<close> drop a present key with one \<open>itemRemoved\<close>; an absent key
  or the empty key changes nothing and notifies nothing.
\<close>

type_synonym aobj = "key \<rightharpoonup> vref"

datatype obj_op =
    OpInsert key vref replacement_policy
  | OpRemove key
  | OpTake key
  | OpTakeDflt key vref

fun aremove :: "key \<Rightarrow> aobj \<Rightarrow> aobj \<times> event list" where
  "aremove k m = (case m k of None \<Rightarrow> (m, []) | Some u \<Rightarrow> (m(k := None), [ItemRemoved k u]))"

fun aop :: "obj_op \<Rightarrow> aobj \<Rightarrow> aobj \<times> event list" where
  "aop (OpInsert k v rp) m =
     (if k = [] then (m, [])
      else case m k of
             None \<Rightarrow> (m(k \<mapsto> v), [ItemAdded k v])
           | Some u \<Rightarrow>
               (case rp of
                  Replace \<Rightarrow> (m(k \<mapsto> v), [ItemRemoved k u, ItemAdded k v])
                | Ignore \<Rightarrow> (m, [])))"
| "aop (OpRemove k) m = aremove k m"
| "aop (OpTake k) m = aremove k m"
| "aop (OpTakeDflt k d) m = aremove k m"

fun arun :: "obj_op list \<Rightarrow> aobj \<Rightarrow> aobj \<times> event list" where
  "arun [] m = (m, [])"
| "arun (p # ps) m = (let (m1, es1) = aop p m; (m2, es2) = arun ps m1 in (m2, es1 @ es2))"

text \<open>The concrete operations on object \<open>t\<close> of the heap, and a sequence of them.\<close>

fun cop :: "oref \<Rightarrow> obj_op \<Rightarrow> heap \<Rightarrow> heap" where
  "cop t (OpInsert k v rp) h = insert_obj t k (Some v) rp h"
| "cop t (OpRemove k) h = remove_obj t k h"
| "cop t (OpTake k) h = snd (take_obj t k h)"
| "cop t (OpTakeDflt k d) h = snd (take_dflt_obj t k d h)"

definition crun :: "oref \<Rightarrow> obj_op list \<Rightarrow> heap \<Rightarrow> heap" where
  "crun t ps h = fold (cop t) ps h"

section \<open>Refinement\<close>

lemma hash_ok_snoc [simp]: "hash_ok m \<Longrightarrow> map_of m k = None \<Longrightarrow> hash_ok (m @ [(k, v)])"
  by (simp add: hash_ok_def map_of_eq_None_iff)

lemma take_obj_heap: "snd (take_obj t k h) =
    (case map_of (hash_of h t) k of None \<Rightarrow> snd (new_value h) | Some v \<Rightarrow> remove_obj t k h)"
  by (simp add: take_obj_def remove_obj_def split: option.splits)

lemma take_dflt_obj_heap: "snd (take_dflt_obj t k d h) = remove_obj t k h"
  by (simp add: take_dflt_obj_def remove_obj_def split: option.splits)

lemma remove_obj_refines:
  assumes "hash_ok (hash_of h t)"
  shows "map_of (hash_of (remove_obj t k h) t) = fst (aremove k (map_of (hash_of h t)))
    \<and> signals (remove_obj t k h) = signals h @ map (Pair t) (snd (aremove k (map_of (hash_of h t))))
    \<and> hash_ok (hash_of (remove_obj t k h) t)"
  using assms by (auto simp: remove_obj_def delete_conv' split: option.splits)

lemma cop_refines:
  assumes "hash_ok (hash_of h t)"
  shows "map_of (hash_of (cop t p h) t) = fst (aop p (map_of (hash_of h t)))
    \<and> signals (cop t p h) = signals h @ map (Pair t) (snd (aop p (map_of (hash_of h t))))
    \<and> hash_ok (hash_of (cop t p h) t)"
proof (cases p)
  case (OpInsert k v rp)
  then show ?thesis using assms
    by (cases rp) (auto simp: insert_obj_def delete_conv' map_add_single_fresh split: option.splits)
next
  case (OpTake k)
  then show ?thesis using assms remove_obj_refines [OF assms, of k]
    by (auto simp: take_obj_heap split: option.splits)
qed (use assms remove_obj_refines [OF assms] take_dflt_obj_heap in auto)

lemma cop_other: "t' \<noteq> t \<Longrightarrow> hash_of (cop t p h) t' = hash_of h t'"
  by (cases p) (auto simp: take_obj_heap take_dflt_obj_heap split: option.splits)

section \<open>No object holds the empty key\<close>

text \<open>
  \<open>insert\<close> ignores the empty key, so an object built by the default constructor and
  the container operations never holds it.
\<close>

definition keys_nonempty :: "heap \<Rightarrow> bool" where
  "keys_nonempty h \<longleftrightarrow> (\<forall>t. map_of (hash_of h t) [] = None)"

lemma keys_nonempty_hash:
  "keys_nonempty h \<Longrightarrow> (\<And>t'. t' \<noteq> t \<Longrightarrow> hash_of h' t' = hash_of h t') \<Longrightarrow>
   map_of (hash_of h' t) [] = None \<Longrightarrow> keys_nonempty h'"
  unfolding keys_nonempty_def by metis

lemma keys_nonempty_insert_obj: "keys_nonempty h \<Longrightarrow> keys_nonempty (insert_obj t k val rp h)"
  by (cases val; rule keys_nonempty_hash [where t = t])
    (auto simp: keys_nonempty_def insert_obj_def delete_conv' map_add_single_fresh
      split: option.splits replacement_policy.splits)

lemma keys_nonempty_remove_obj: "keys_nonempty h \<Longrightarrow> keys_nonempty (remove_obj t k h)"
  by (rule keys_nonempty_hash [where t = t]) (auto simp: keys_nonempty_def delete_conv')

lemma keys_nonempty_new_value: "keys_nonempty (snd (new_value h)) = keys_nonempty h"
  by (simp add: keys_nonempty_def)

lemma keys_nonempty_unite_arr: "keys_nonempty (unite_arr au a b up h) = keys_nonempty h"
  by (simp add: keys_nonempty_def)

lemma keys_nonempty_unite:
  "unite_obj n au a ob rp up h = Some h' \<Longrightarrow> keys_nonempty h \<Longrightarrow> keys_nonempty h'"
  "unite_keys n au a b ks rp up h = Some h' \<Longrightarrow> keys_nonempty h \<Longrightarrow> keys_nonempty h'"
  "unite_step n au a b k rp up h = Some h' \<Longrightarrow> keys_nonempty h \<Longrightarrow> keys_nonempty h'"
proof (induction n au a ob rp up h and n au a b ks rp up h and n au a b k rp up h
       arbitrary: h' and h' and h' rule: unite_obj_unite_keys_unite_step.induct)
  case (5 n au t b k ks rp up h)
  then show ?case by (auto split: option.splits)
next
  case (6 n au t b k rp up h)
  then show ?case
    by (auto simp: Let_def keys_nonempty_insert_obj keys_nonempty_unite_arr split: if_splits)
qed auto

lemma keys_nonempty_remove_keys: "keys_nonempty h \<Longrightarrow> keys_nonempty (remove_keys t ks h)"
  unfolding remove_keys_def by (induction ks arbitrary: h) (auto simp: keys_nonempty_remove_obj)

lemma keys_nonempty_clear:
  "clear_obj n t h = Some h' \<Longrightarrow> keys_nonempty h \<Longrightarrow> keys_nonempty h'"
  "clear_arr n a h = Some h' \<Longrightarrow> keys_nonempty h \<Longrightarrow> keys_nonempty h'"
  "clear_vals n vs h = Some h' \<Longrightarrow> keys_nonempty h \<Longrightarrow> keys_nonempty h'"
proof (induction n t h and n a h and n vs h arbitrary: h' and h' and h'
       rule: clear_obj_clear_arr_clear_vals.induct)
  case (2 n t h)
  then show ?case by (auto simp: keys_nonempty_remove_keys split: option.splits)
next
  case (4 n a h)
  then show ?case by (auto simp: keys_nonempty_def split: option.splits)
next
  case (6 n v vs h)
  then show ?case by (auto split: if_splits option.splits)
qed auto

lemma hash_of_new_obj [simp]:
  "hash_of (snd (new_obj m h)) t = (if t = lim h then m else hash_of h t)"
  "fst (new_obj m h) = lim h"
  by (simp_all add: new_obj_def hash_of_def)

lemma keys_nonempty_from_obj: "keys_nonempty (snd (from_obj f t k h)) = keys_nonempty h"
  by (simp add: keys_nonempty_def from_obj_unfold)

section \<open>Properties of the container\<close>

text \<open>
  C28: every sequence of \<open>insert\<close>, \<open>remove\<close>, \<open>take\<close> and \<open>take(key, default)\<close>
  on an object refines the abstract container: the object's entries, read as a map, are
  the abstract map after the same sequence, the signals it appends are the abstract
  notifications in order, its keys stay distinct, and no other object changes.
\<close>

theorem crun_refines:
  "hash_ok (hash_of h t) \<Longrightarrow>
   map_of (hash_of (crun t ps h) t) = fst (arun ps (map_of (hash_of h t)))
   \<and> signals (crun t ps h) = signals h @ map (Pair t) (snd (arun ps (map_of (hash_of h t))))
   \<and> hash_ok (hash_of (crun t ps h) t)
   \<and> (\<forall>t'. t' \<noteq> t \<longrightarrow> hash_of (crun t ps h) t' = hash_of h t')"
proof (induction ps arbitrary: h)
  case Nil
  then show ?case by (simp add: crun_def)
next
  case (Cons p ps)
  let ?h1 = "cop t p h"
  have c: "map_of (hash_of ?h1 t) = fst (aop p (map_of (hash_of h t)))"
    "signals ?h1 = signals h @ map (Pair t) (snd (aop p (map_of (hash_of h t))))"
    "hash_ok (hash_of ?h1 t)"
    using cop_refines [OF Cons.prems] by blast+
  have "crun t (p # ps) h = crun t ps ?h1" by (simp add: crun_def)
  with Cons.IH [OF c(3)] c(1,2) cop_other [of _ t p h] show ?case
    by (simp add: split_beta)
qed


text \<open>
  C29: no object holds the empty key, and every operation keeps it so: \<open>insert\<close>,
  \<open>remove\<close>, \<open>take\<close>, \<open>take(key, default)\<close>, the setters, the default
  constructor, and \<open>unite\<close> and \<open>clear\<close> whenever they return.
\<close>

theorem keys_nonempty_preserved:
  assumes "keys_nonempty h"
  shows "keys_nonempty (insert_obj t k val rp h)
    \<and> keys_nonempty (remove_obj t k h)
    \<and> keys_nonempty (snd (take_obj t k h))
    \<and> keys_nonempty (snd (take_dflt_obj t k d h))
    \<and> keys_nonempty (snd (from_obj f t k h))
    \<and> keys_nonempty (snd (QMJsonObject_new h))
    \<and> (\<forall>h'. unite_obj n au t ob rp up h = Some h' \<longrightarrow> keys_nonempty h')
    \<and> (\<forall>h'. clear_obj n t h = Some h' \<longrightarrow> keys_nonempty h')"
proof -
  have new: "keys_nonempty (snd (QMJsonObject_new h))"
    using assms unfolding QMJsonObject_new_def keys_nonempty_def by simp
  have take: "keys_nonempty (snd (take_obj t k h))"
    unfolding take_obj_heap
    by (cases "map_of (hash_of h t) k") (simp_all add: keys_nonempty_new_value assms keys_nonempty_remove_obj [OF assms])
  have dflt: "keys_nonempty (snd (take_dflt_obj t k d h))"
    unfolding take_dflt_obj_heap by (rule keys_nonempty_remove_obj [OF assms])
  have fr: "keys_nonempty (snd (from_obj f t k h))"
    unfolding keys_nonempty_from_obj by (rule assms)
  have un: "\<forall>h'. unite_obj n au t ob rp up h = Some h' \<longrightarrow> keys_nonempty h'"
    by (auto intro: keys_nonempty_unite(1) [OF _ assms])
  have cl: "\<forall>h'. clear_obj n t h = Some h' \<longrightarrow> keys_nonempty h'"
    by (auto intro: keys_nonempty_clear(1) [OF _ assms])
  show ?thesis
    using new take dflt fr un cl keys_nonempty_insert_obj [OF assms] keys_nonempty_remove_obj [OF assms]
    by (intro conjI)
qed

section \<open>Witnesses\<close>

lemma sample_heap_keys_nonempty: "keys_nonempty sample_heap"
  by (simp add: keys_nonempty_def sample_heap_def hash_of_def)

lemma crun_refines_witness:
  "hash_ok (hash_of sample_heap 3)
   \<and> signals (crun 3 [OpInsert ''x'' 5 Replace, OpRemove ''y'', OpInsert [] 4 Replace, OpTake ''w'']
        sample_heap) = [(3, ItemRemoved ''x'' 4), (3, ItemAdded ''x'' 5), (3, ItemRemoved ''y'' 5)]"
proof -
  let ?ps = "[OpInsert ''x'' 5 Replace, OpRemove ''y'', OpInsert [] 4 Replace, OpTake ''w'']"
  have "signals (crun 3 ?ps sample_heap)
      = signals sample_heap @ map (Pair 3) (snd (arun ?ps (map_of (hash_of sample_heap 3))))"
    using crun_refines [OF sample_heap_facts(7), of ?ps] by blast
  moreover have "hash_of sample_heap 3 = [(''x'', 4), (''y'', 5)]" "signals sample_heap = []"
    by (simp_all add: sample_heap_def hash_of_def)
  ultimately show ?thesis using sample_heap_facts(7) by simp
qed

lemma keys_nonempty_preserved_witness:
  "keys_nonempty sample_heap \<and> keys_nonempty (insert_obj 3 [] (Some 4) Replace sample_heap)
   \<and> keys_nonempty (remove_obj 3 ''x'' sample_heap)"
proof -
  note p = keys_nonempty_preserved [OF sample_heap_keys_nonempty]
  have "keys_nonempty (insert_obj 3 [] (Some 4) Replace sample_heap)"
    by (rule conjunct1 [OF p])
  moreover have "keys_nonempty (remove_obj 3 ''x'' sample_heap)"
    by (rule conjunct1 [OF conjunct2 [OF p]])
  ultimately show ?thesis using sample_heap_keys_nonempty by blast
qed

end
