(* ===== verification/JsonDoc.thy ===== *)
theory JsonDoc
  imports JsonClear
begin

text \<open>
  JSON documents and where they live in the heap. \<open>json\<close> is a document as a value
  (objects as association lists in key order); \<open>repr h v j\<close> says that the handle
  \<open>v\<close> of heap \<open>h\<close> holds the document \<open>j\<close>, and \<open>fp h v j\<close> lists the containers
  (objects and arrays) it occupies. A document is a tree when its footprint has no
  repetition. \<open>same_outside X\<close> relates two heaps that differ only in the containers of
  \<open>X\<close>; a document outside \<open>X\<close> is read the same in both (\<open>repr_frame\<close>). The
  lemmas on entries and regions give each entry of an object the part of the footprint
  it owns.
\<close>

section \<open>JSON documents\<close>

datatype json =
    JSNull
  | JSBool bool
  | JSNum real
  | JSStr string
  | JSArr "json list"
  | JSObj "(key \<times> json) list"

section \<open>A document in the heap\<close>

fun repr :: "heap \<Rightarrow> vref \<Rightarrow> json \<Rightarrow> bool"
and repr_list :: "heap \<Rightarrow> vref list \<Rightarrow> json list \<Rightarrow> bool"
and repr_fields :: "heap \<Rightarrow> (key \<times> vref) list \<Rightarrow> (key \<times> json) list \<Rightarrow> bool" where
  "repr h v JSNull = (cell h v = JNull)"
| "repr h v (JSBool b) = (cell h v = JBool b)"
| "repr h v (JSNum x) = (cell h v = JDouble x)"
| "repr h v (JSStr s) = (cell h v = JString s)"
| "repr h v (JSArr js) = (case cell h v of JArray a \<Rightarrow> repr_list h (elems h a) js | _ \<Rightarrow> False)"
| "repr h v (JSObj fs) = (case cell h v of JObject ob \<Rightarrow> repr_fields h (hash_of h ob) fs | _ \<Rightarrow> False)"
| "repr_list h [] [] = True"
| "repr_list h (v # vs) (j # js) = (repr h v j \<and> repr_list h vs js)"
| "repr_list h _ _ = False"
| "repr_fields h [] [] = True"
| "repr_fields h ((k, v) # kvs) ((k', j) # fs) = (k = k' \<and> repr h v j \<and> repr_fields h kvs fs)"
| "repr_fields h _ _ = False"

fun fp :: "heap \<Rightarrow> vref \<Rightarrow> json \<Rightarrow> node list"
and fp_list :: "heap \<Rightarrow> vref list \<Rightarrow> json list \<Rightarrow> node list"
and fp_fields :: "heap \<Rightarrow> (key \<times> vref) list \<Rightarrow> (key \<times> json) list \<Rightarrow> node list" where
  "fp h v (JSArr js) = (case cell h v of JArray a \<Rightarrow> ArrN a # fp_list h (elems h a) js | _ \<Rightarrow> [])"
| "fp h v (JSObj fs) = (case cell h v of JObject ob \<Rightarrow> ObjN ob # fp_fields h (hash_of h ob) fs | _ \<Rightarrow> [])"
| "fp h v _ = []"
| "fp_list h (v # vs) (j # js) = fp h v j @ fp_list h vs js"
| "fp_list h _ _ = []"
| "fp_fields h ((k, v) # kvs) ((k', j) # fs) = fp h v j @ fp_fields h kvs fs"
| "fp_fields h _ _ = []"

section \<open>Well-formed documents\<close>

text \<open>
  \<open>depth\<close> counts the nesting of objects (the recursion depth of \<open>unite\<close>);
  \<open>keys_ok\<close> says that no object of the document repeats a key, as a \<open>QHash\<close> never does.
\<close>

fun depth :: "json \<Rightarrow> nat"
and depth_fields :: "(key \<times> json) list \<Rightarrow> nat" where
  "depth (JSObj fs) = Suc (depth_fields fs)"
| "depth _ = 0"
| "depth_fields [] = 0"
| "depth_fields ((k, j) # fs) = max (depth j) (depth_fields fs)"

fun keys_ok :: "json \<Rightarrow> bool"
and keys_ok_fields :: "(key \<times> json) list \<Rightarrow> bool" where
  "keys_ok (JSObj fs) = (distinct (map fst fs) \<and> keys_ok_fields fs)"
| "keys_ok _ = True"
| "keys_ok_fields [] = True"
| "keys_ok_fields ((k, j) # fs) = (keys_ok j \<and> keys_ok_fields fs)"

section \<open>Writes outside a footprint\<close>

definition same_outside :: "node set \<Rightarrow> heap \<Rightarrow> heap \<Rightarrow> bool" where
  "same_outside X g g' \<longleftrightarrow> cell g' = cell g
     \<and> (\<forall>ob. ObjN ob \<notin> X \<longrightarrow> hash_of g' ob = hash_of g ob)
     \<and> (\<forall>a. ArrN a \<notin> X \<longrightarrow> elems g' a = elems g a)"

lemma same_outside_refl [simp]: "same_outside X g g"
  by (simp add: same_outside_def)

lemma same_outside_trans:
  "same_outside X g g1 \<Longrightarrow> same_outside Y g1 g2 \<Longrightarrow> same_outside (X \<union> Y) g g2"
  by (simp add: same_outside_def)

lemma same_outside_mono: "same_outside X g g' \<Longrightarrow> X \<subseteq> Y \<Longrightarrow> same_outside Y g g'"
  by (auto simp: same_outside_def)

lemma repr_frame:
  "repr g v j \<Longrightarrow> set (fp g v j) \<inter> X = {} \<Longrightarrow> same_outside X g g' \<Longrightarrow>
     repr g' v j \<and> fp g' v j = fp g v j"
  "repr_list g vs js \<Longrightarrow> set (fp_list g vs js) \<inter> X = {} \<Longrightarrow> same_outside X g g' \<Longrightarrow>
     repr_list g' vs js \<and> fp_list g' vs js = fp_list g vs js"
  "repr_fields g kvs fs \<Longrightarrow> set (fp_fields g kvs fs) \<inter> X = {} \<Longrightarrow> same_outside X g g' \<Longrightarrow>
     repr_fields g' kvs fs \<and> fp_fields g' kvs fs = fp_fields g kvs fs"
proof (induction g v j and g vs js and g kvs fs rule: repr_repr_list_repr_fields.induct)
  case (5 h v js)
  then obtain a where c: "cell h v = JArray a" by (auto split: jvalue.splits)
  have r: "repr_list h (elems h a) js" and a: "ArrN a \<notin> X"
    and d: "set (fp_list h (elems h a) js) \<inter> X = {}"
    using "5.prems"(1,2) c by auto
  have e: "elems g' a = elems h a" "cell g' = cell h"
    using "5.prems"(3) a by (simp_all add: same_outside_def)
  show ?case using "5.IH" [OF c r d "5.prems"(3)] c e by simp
next
  case (6 h v fs)
  then obtain ob where c: "cell h v = JObject ob" by (auto split: jvalue.splits)
  have r: "repr_fields h (hash_of h ob) fs" and o: "ObjN ob \<notin> X"
    and d: "set (fp_fields h (hash_of h ob) fs) \<inter> X = {}"
    using "6.prems"(1,2) c by auto
  have e: "hash_of g' ob = hash_of h ob" "cell g' = cell h"
    using "6.prems"(3) o by (simp_all add: same_outside_def)
  show ?case using "6.IH" [OF c r d "6.prems"(3)] c e by simp
qed (auto simp: same_outside_def Int_Un_distrib2)

section \<open>Entries and their regions\<close>

text \<open>
  \<open>fields_in g own R kvs fs\<close>: the footprint of each entry lies in the region \<open>own k\<close>
  of its key or in the region \<open>R\<close> of the argument document.
\<close>

fun fields_in :: "heap \<Rightarrow> (key \<Rightarrow> node set) \<Rightarrow> node set \<Rightarrow> (key \<times> vref) list \<Rightarrow> (key \<times> json) list \<Rightarrow> bool" where
  "fields_in g own R ((k, v) # kvs) ((k', j) # fs) = (set (fp g v j) \<subseteq> own k \<union> R \<and> fields_in g own R kvs fs)"
| "fields_in g own R _ _ = True"

lemma repr_fields_keys: "repr_fields g kvs fs \<Longrightarrow> map fst kvs = map fst fs"
  by (induction kvs arbitrary: fs) (auto elim: repr_fields.elims)

lemma repr_fields_map_of:
  "repr_fields g kvs fs \<Longrightarrow> map_of kvs k = Some v \<Longrightarrow>
     \<exists>j. map_of fs k = Some j \<and> repr g v j \<and> set (fp g v j) \<subseteq> set (fp_fields g kvs fs)"
proof (induction kvs arbitrary: fs)
  case (Cons p kvs)
  then obtain k1 v1 j1 fs' where "p = (k1, v1)" "fs = (k1, j1) # fs'"
    by (cases p; cases fs) (auto elim: repr_fields.elims)
  then show ?case using Cons.prems Cons.IH [of fs'] by (auto split: if_splits)
qed simp

lemma repr_fields_map_of_None:
  "repr_fields g kvs fs \<Longrightarrow> (map_of kvs k = None) = (map_of fs k = None)"
  using repr_fields_keys [of g kvs fs] by (metis map_of_eq_None_iff set_map)

lemma fields_in_map_of:
  "repr_fields g kvs fs \<Longrightarrow> fields_in g own R kvs fs \<Longrightarrow> map_of kvs k = Some v \<Longrightarrow> map_of fs k = Some j \<Longrightarrow>
     set (fp g v j) \<subseteq> own k \<union> R"
proof (induction kvs arbitrary: fs)
  case (Cons p kvs)
  then obtain k1 v1 j1 fs' where "p = (k1, v1)" "fs = (k1, j1) # fs'"
    by (cases p; cases fs) (auto elim: repr_fields.elims)
  with Cons show ?case by (auto split: if_splits)
qed simp

lemma fields_frame:
  "repr_fields g kvs fs \<Longrightarrow> fields_in g own R kvs fs \<Longrightarrow> same_outside X g g' \<Longrightarrow>
   (\<forall>k' \<in> set (map fst kvs). X \<inter> (own k' \<union> R) = {}) \<Longrightarrow>
   repr_fields g' kvs fs \<and> fields_in g' own R kvs fs"
proof (induction kvs arbitrary: fs)
  case (Cons p kvs)
  then obtain k1 v1 j1 fs' where p: "p = (k1, v1)" and fs: "fs = (k1, j1) # fs'"
    by (cases p; cases fs) (auto elim: repr_fields.elims)
  have r: "repr g v1 j1" and sub: "set (fp g v1 j1) \<subseteq> own k1 \<union> R"
    using Cons.prems(1,2) by (simp_all add: p fs)
  have "set (fp g v1 j1) \<inter> X = {}" using sub Cons.prems(4) by (auto simp: p)
  from repr_frame(1) [OF r this Cons.prems(3)] Cons.IH [of fs'] Cons.prems sub show ?case
    by (simp add: p fs)
next
  case Nil
  then show ?case by (cases fs) auto
qed

lemma fields_update:
  assumes "repr_fields g kvs fs" "fields_in g own R kvs fs" "distinct (map fst kvs)" "same_outside X g g'"
    "\<forall>k' \<in> set (map fst kvs). k' \<noteq> k \<longrightarrow> X \<inter> (own k' \<union> R) = {}"
    "repr g' v' j'" "set (fp g' v' j') \<subseteq> own k \<union> R"
  shows "repr_fields g' (AList.update k v' kvs) (AList.update k j' fs)
    \<and> fields_in g' own R (AList.update k v' kvs) (AList.update k j' fs)"
  using assms
proof (induction kvs arbitrary: fs)
  case Nil
  then show ?case by (cases fs) auto
next
  case (Cons p kvs)
  then obtain k1 v1 j1 fs' where p: "p = (k1, v1)" and fs: "fs = (k1, j1) # fs'"
    by (cases p; cases fs) (auto elim: repr_fields.elims)
  show ?case
  proof (cases "k1 = k")
    case True
    have nk: "k \<notin> set (map fst kvs)" using Cons.prems(3) True by (simp add: p)
    have all: "\<forall>k' \<in> set (map fst kvs). X \<inter> (own k' \<union> R) = {}"
      using Cons.prems(5) nk by (auto simp: p)
    have "repr_fields g kvs fs'" "fields_in g own R kvs fs'"
      using Cons.prems(1,2) by (simp_all add: p fs)
    then have "repr_fields g' kvs fs' \<and> fields_in g' own R kvs fs'"
      using fields_frame Cons.prems(4) all by blast
    then show ?thesis using True Cons.prems(6,7) by (simp add: p fs)
  next
    case False
    have r: "repr g v1 j1" and sub: "set (fp g v1 j1) \<subseteq> own k1 \<union> R"
      using Cons.prems(1,2) by (simp_all add: p fs)
    have "set (fp g v1 j1) \<inter> X = {}" using sub Cons.prems(5) False by (auto simp: p)
    from repr_frame(1) [OF r this Cons.prems(4)] have "repr g' v1 j1 \<and> fp g' v1 j1 = fp g v1 j1" .
    moreover have "repr_fields g' (AList.update k v' kvs) (AList.update k j' fs')
        \<and> fields_in g' own R (AList.update k v' kvs) (AList.update k j' fs')"
      using Cons.IH [of fs'] Cons.prems by (simp add: p fs)
    ultimately show ?thesis using False sub by (simp add: p fs)
  qed
qed

lemma fields_delete:
  "repr_fields g kvs fs \<Longrightarrow> fields_in g own R kvs fs \<Longrightarrow>
   repr_fields g (AList.delete k kvs) (AList.delete k fs) \<and> fields_in g own R (AList.delete k kvs) (AList.delete k fs)"
proof (induction kvs arbitrary: fs)
  case (Cons p kvs)
  then obtain k1 v1 j1 fs' where "p = (k1, v1)" "fs = (k1, j1) # fs'"
    by (cases p; cases fs) (auto elim: repr_fields.elims)
  with Cons show ?case by auto
next
  case Nil
  then show ?case by (cases fs) auto
qed

section \<open>Arrays and footprints\<close>

lemma repr_list_iff:
  "repr_list g vs js \<longleftrightarrow> length vs = length js \<and> (\<forall>i < length vs. repr g (vs ! i) (js ! i))"
proof (induction vs arbitrary: js)
  case Nil
  then show ?case by (cases js) auto
next
  case (Cons v vs)
  then show ?case by (cases js) (auto simp: nth_Cons split: nat.splits)
qed

lemma fp_list_conv:
  "length vs = length js \<Longrightarrow> set (fp_list g vs js) = (\<Union>i < length vs. set (fp g (vs ! i) (js ! i)))"
proof (induction vs arbitrary: js)
  case (Cons v vs)
  then obtain j js' where js: "js = j # js'" by (cases js) auto
  have "(\<Union>i < Suc (length vs). set (fp g ((v # vs) ! i) ((j # js') ! i)))
      = set (fp g v j) \<union> (\<Union>i < length vs. set (fp g (vs ! i) (js' ! i)))"
    by (simp add: lessThan_Suc_eq_insert_0 UN_insert image_Suc_lessThan [symmetric] del: image_Suc_lessThan)
  with Cons show ?case by (simp add: js)
qed simp

lemma repr_list_append:
  "repr_list g vs js \<Longrightarrow> repr_list g ws ks \<Longrightarrow> repr_list g (vs @ ws) (js @ ks)
     \<and> set (fp_list g (vs @ ws) (js @ ks)) = set (fp_list g vs js) \<union> set (fp_list g ws ks)"
proof (induction vs arbitrary: js)
  case Nil
  then show ?case by (cases js) auto
next
  case (Cons v vs)
  then show ?case by (cases js) auto
qed

lemma repr_JObject:
  "repr g v j \<Longrightarrow> cell g v = JObject ob \<Longrightarrow> \<exists>fs. j = JSObj fs \<and> repr_fields g (hash_of g ob) fs"
  by (cases j) auto

lemma repr_JArray:
  "repr g v j \<Longrightarrow> cell g v = JArray a \<Longrightarrow> \<exists>js. j = JSArr js \<and> repr_list g (elems g a) js"
  by (cases j) auto

lemma repr_JSObj:
  "repr g v (JSObj fs) \<Longrightarrow> \<exists>ob. cell g v = JObject ob"
  by (auto split: jvalue.splits)

lemma repr_JSArr:
  "repr g v (JSArr js) \<Longrightarrow> \<exists>a. cell g v = JArray a"
  by (auto split: jvalue.splits)

lemma update_same: "map_of kvs k = Some v \<Longrightarrow> AList.update k v kvs = kvs"
  by (induction kvs) auto

lemma fields_in_fp:
  "fields_in g own R kvs fs \<Longrightarrow> repr_fields g kvs fs \<Longrightarrow>
     set (fp_fields g kvs fs) \<subseteq> (\<Union>k \<in> set (map fst kvs). own k) \<union> R"
proof (induction kvs arbitrary: fs)
  case (Cons p kvs)
  then obtain k1 v1 j1 fs' where "p = (k1, v1)" "fs = (k1, j1) # fs'"
    by (cases p; cases fs) (auto elim: repr_fields.elims)
  with Cons show ?case by auto
next
  case Nil
  then show ?case by (cases fs) auto
qed

text \<open>The regions of the entries of a document without repeated containers.\<close>

definition regions :: "heap \<Rightarrow> (key \<times> vref) list \<Rightarrow> (key \<times> json) list \<Rightarrow> key \<Rightarrow> node set" where
  "regions g kvs fs k = (case map_of kvs k of
      None \<Rightarrow> {}
    | Some v \<Rightarrow> (case map_of fs k of None \<Rightarrow> {} | Some j \<Rightarrow> set (fp g v j)))"

lemma regions_sub:
  "repr_fields g kvs fs \<Longrightarrow> regions g kvs fs k \<subseteq> set (fp_fields g kvs fs)"
  using repr_fields_map_of [of g kvs fs k]
  by (auto simp: regions_def split: option.splits)

lemma regions_disjoint:
  "repr_fields g kvs fs \<Longrightarrow> distinct (fp_fields g kvs fs) \<Longrightarrow> distinct (map fst kvs) \<Longrightarrow>
   k \<noteq> k' \<Longrightarrow> regions g kvs fs k \<inter> regions g kvs fs k' = {}"
proof (induction kvs arbitrary: fs)
  case (Cons p kvs)
  then obtain k1 v1 j1 fs' where p: "p = (k1, v1)" and fs: "fs = (k1, j1) # fs'"
    by (cases p; cases fs) (auto elim: repr_fields.elims)
  have r: "repr_fields g kvs fs'" and d: "distinct (fp_fields g kvs fs')"
    and dis: "set (fp g v1 j1) \<inter> set (fp_fields g kvs fs') = {}"
    using Cons.prems by (simp_all add: p fs)
  have k1: "k1 \<notin> set (map fst kvs)" using Cons.prems(3) by (simp add: p)
  have kfs: "map fst kvs = map fst fs'" using r repr_fields_keys by blast
  have other: "k2 \<noteq> k1 \<Longrightarrow> regions g ((k1, v1) # kvs) ((k1, j1) # fs') k2 = regions g kvs fs' k2" for k2
    by (auto simp: regions_def split: option.splits)
  have first: "regions g ((k1, v1) # kvs) ((k1, j1) # fs') k1 = set (fp g v1 j1)"
    by (simp add: regions_def)
  show ?case
  proof (cases "k = k1 \<or> k' = k1")
    case True
    have "x \<in> regions g kvs fs' k2 \<Longrightarrow> x \<notin> set (fp g v1 j1)" for x k2
      using regions_sub [OF r, of k2] dis by blast
    then show ?thesis
      using True Cons.prems(4) other first by (auto simp: p fs)
  next
    case False
    then show ?thesis using Cons.IH [OF r d] Cons.prems(3,4) other by (simp add: p fs)
  qed
qed (simp add: regions_def)

lemma fields_in_regions:
  "repr_fields g kvs fs \<Longrightarrow> distinct (map fst kvs) \<Longrightarrow> (\<forall>k. regions g kvs fs k \<subseteq> own k) \<Longrightarrow>
   fields_in g own R kvs fs"
proof (induction kvs arbitrary: fs)
  case (Cons p kvs)
  then obtain k1 v1 j1 fs' where p: "p = (k1, v1)" and fs: "fs = (k1, j1) # fs'"
    by (cases p; cases fs) (auto elim: repr_fields.elims)
  have r: "repr_fields g kvs fs'" using Cons.prems(1) by (simp add: p fs)
  have k1: "k1 \<notin> set (map fst kvs)" using Cons.prems(2) by (simp add: p)
  then have "map_of kvs k1 = None" by (simp add: map_of_eq_None_iff)
  then have "regions g kvs fs' k \<subseteq> own k" for k
    using Cons.prems(3) [rule_format, of k] by (cases "k = k1") (auto simp: regions_def p fs split: option.splits)
  then have "fields_in g own R kvs fs'" using Cons.IH [OF r] Cons.prems(2) by (simp add: p)
  moreover have "set (fp g v1 j1) \<subseteq> own k1"
    using Cons.prems(3) [rule_format, of k1] by (simp add: regions_def p fs)
  ultimately show ?case by (auto simp: p fs)
next
  case Nil
  then show ?case by (cases fs) auto
qed

section \<open>Facts about single entries\<close>

lemma map_of_update_other [simp]: "k' \<noteq> k \<Longrightarrow> map_of (AList.update k v al) k' = map_of al k'"
  by (simp add: update_conv')

lemma map_of_delete_other [simp]: "k' \<noteq> k \<Longrightarrow> map_of (AList.delete k al) k' = map_of al k'"
  by (simp add: delete_conv')

lemma map_add_single_other [simp]: "k' \<noteq> k \<Longrightarrow> ([k \<mapsto> v] ++ m) k' = m k'"
  by (simp add: map_add_def split: option.splits)

lemma repr_fields_entry:
  "repr_fields g kvs fs \<Longrightarrow> map_of kvs k = Some v \<Longrightarrow> map_of fs k = Some j \<Longrightarrow>
     repr g v j \<and> set (fp g v j) \<subseteq> set (fp_fields g kvs fs)"
  using repr_fields_map_of [of g kvs fs k v] by auto

lemma distinct_fp_entry:
  "repr_fields g kvs fs \<Longrightarrow> distinct (fp_fields g kvs fs) \<Longrightarrow> map_of kvs k = Some v \<Longrightarrow>
     map_of fs k = Some j \<Longrightarrow> distinct (fp g v j)"
proof (induction kvs arbitrary: fs)
  case (Cons p kvs)
  then obtain k1 v1 j1 fs' where "p = (k1, v1)" "fs = (k1, j1) # fs'"
    by (cases p; cases fs) (auto elim: repr_fields.elims)
  with Cons show ?case by (auto split: if_splits)
qed simp

lemma keys_ok_entry: "keys_ok_fields fs \<Longrightarrow> map_of fs k = Some j \<Longrightarrow> keys_ok j"
proof (induction fs)
  case (Cons p fs)
  then show ?case by (cases p) (auto split: if_splits)
qed simp

lemma depth_entry: "map_of fs k = Some j \<Longrightarrow> depth j \<le> depth_fields fs"
proof (induction fs)
  case (Cons p fs)
  then show ?case by (cases p) (auto split: if_splits)
qed simp

section \<open>Reachability stays in the footprint\<close>

text \<open>
  A container reachable in the heap from the container at a handle that holds a
  document lies in the document's footprint: the footprint is closed under the
  entries of its containers.
\<close>

lemma repr_reach:
  "repr g v j \<Longrightarrow> node_of g v = Some u \<Longrightarrow> reach g u x \<Longrightarrow> x \<in> set (fp g v j)"
  "repr_list g vs js \<Longrightarrow> w \<in> set vs \<Longrightarrow> node_of g w = Some u \<Longrightarrow> reach g u x \<Longrightarrow>
     x \<in> set (fp_list g vs js)"
  "repr_fields g kvs fs \<Longrightarrow> w \<in> set (map snd kvs) \<Longrightarrow> node_of g w = Some u \<Longrightarrow> reach g u x \<Longrightarrow>
     x \<in> set (fp_fields g kvs fs)"
proof (induction g v j and g vs js and g kvs fs arbitrary: u x and w u x and w u x
       rule: repr_repr_list_repr_fields.induct)
  case (5 h v js)
  then obtain a where c: "cell h v = JArray a" and u: "u = ArrN a"
    by (auto simp: node_of_def split: jvalue.splits)
  have r: "repr_list h (elems h a) js" using "5.prems"(1) c by simp
  from "5.prems"(3) [unfolded u] show ?case
  proof (cases rule: reach.cases)
    case (reach_step w')
    then obtain w where "w \<in> set (elems h a)" "node_of h w = Some w'" by (auto simp: edge_def)
    from "5.IH" [OF c r this reach_step(2)] show ?thesis using c by simp
  qed (simp add: c)
next
  case (6 h v fs)
  then obtain ob where c: "cell h v = JObject ob" and u: "u = ObjN ob"
    by (auto simp: node_of_def split: jvalue.splits)
  have r: "repr_fields h (hash_of h ob) fs" using "6.prems"(1) c by simp
  from "6.prems"(3) [unfolded u] show ?case
  proof (cases rule: reach.cases)
    case (reach_step w')
    then obtain w where "w \<in> set (map snd (hash_of h ob))" "node_of h w = Some w'"
      by (auto simp: edge_def values_obj_def)
    from "6.IH" [OF c r this reach_step(2)] show ?thesis using c by simp
  qed (simp add: c)
next
  case (8 h v vs j js)
  then show ?case by auto
next
  case (11 h k v kvs k' j fs)
  show ?case
  proof (cases "w = v")
    case True
    with 11 show ?thesis by auto
  next
    case False
    then have "w \<in> set (map snd kvs)" using "11.prems"(2) by simp
    from "11.IH"(2) [OF _ this "11.prems"(3,4)] "11.prems"(1) show ?thesis by simp
  qed
qed (auto simp: node_of_def)

end
