(* ===== verification/JsonMerge.thy ===== *)
theory JsonMerge
  imports JsonDoc JsonUnite
begin

text \<open>
  \<open>unite\<close> refines a merge of JSON documents. \<open>amerge\<close> is the specification's
  section 4.2 on documents: the argument's entries are visited in order; a key the
  receiver lacks is added (unless empty), two objects under one key are merged
  recursively, two arrays are combined by an index selection \<open>sel\<close> (the array strategy
  of \<open>QMJsonArray::unite\<close>, \<open>select_unite\<close> on handles), and any other conflict is
  settled by the replacement policy. \<open>amerge_notes\<close> lists what the receiver announces.
  The refinement is proved for two disjoint documents, the receiver a tree, with fuel
  the depth of the argument: the step lemmas (one per branch of \<open>unite_step\<close>), the
  loop lemma \<open>keys_refines\<close>, and the induction on the fuel \<open>merge_ok_all\<close>.
\<close>

section \<open>The merge of two documents\<close>

definition pick :: "nat list \<Rightarrow> 'a list \<Rightarrow> 'a list" where
  "pick is xs = map (nth xs) (filter (\<lambda>i. i < length xs) is)"

type_synonym 'p array_select = "'p \<Rightarrow> nat \<Rightarrow> nat \<Rightarrow> nat list"

function (sequential) amerge :: "replacement_policy \<Rightarrow> 'p array_select \<Rightarrow> 'p \<Rightarrow>
    (key \<times> json) list \<Rightarrow> (key \<times> json) list \<Rightarrow> (key \<times> json) list"
and amerge_entry :: "replacement_policy \<Rightarrow> 'p array_select \<Rightarrow> 'p \<Rightarrow>
    (key \<times> json) list \<Rightarrow> key \<Rightarrow> json \<Rightarrow> (key \<times> json) list"
and amerge_conflict :: "replacement_policy \<Rightarrow> 'p array_select \<Rightarrow> 'p \<Rightarrow>
    (key \<times> json) list \<Rightarrow> key \<Rightarrow> json \<Rightarrow> json \<Rightarrow> (key \<times> json) list" where
  "amerge rp sel up acc [] = acc"
| "amerge rp sel up acc ((k, jb) # bs) = amerge rp sel up (amerge_entry rp sel up acc k jb) bs"
| "amerge_entry rp sel up acc k jb =
     (case map_of acc k of
        None \<Rightarrow> (if k = [] then acc else AList.update k jb acc)
      | Some ja \<Rightarrow> amerge_conflict rp sel up acc k ja jb)"
| "amerge_conflict rp sel up acc k (JSObj fa) (JSObj fb) =
     AList.update k (JSObj (amerge rp sel up fa fb)) acc"
| "amerge_conflict rp sel up acc k (JSArr xa) (JSArr xb) =
     AList.update k (JSArr (pick (sel up (length xa) (length xb)) (xa @ xb))) acc"
| "amerge_conflict rp sel up acc k ja jb =
     (if k = [] \<or> rp = Ignore then acc else AList.update k jb (AList.delete k acc))"
  by pat_completeness auto
termination
  by (relation "measures
        [\<lambda>x. case x of Inl (_, _, _, _, bs) \<Rightarrow> size_list (size_prod (\<lambda>_. 0) size) bs
                | Inr (Inl (_, _, _, _, _, jb)) \<Rightarrow> size jb
                | Inr (Inr (_, _, _, _, _, _, jb)) \<Rightarrow> size jb,
         \<lambda>x. case x of Inr (Inl _) \<Rightarrow> 1 | _ \<Rightarrow> 0]") auto

lemma pick_repr:
  assumes "repr_list g vs js"
  shows "repr_list g (pick is vs) (pick is js)
    \<and> set (fp_list g (pick is vs) (pick is js)) \<subseteq> set (fp_list g vs js)"
proof -
  have l: "length vs = length js" using assms repr_list_iff by blast
  let ?is = "filter (\<lambda>i. i < length vs) is"
  have p: "pick is vs = map (nth vs) ?is" "pick is js = map (nth js) ?is"
    by (simp_all add: pick_def l)
  have i: "i < length ?is \<Longrightarrow> ?is ! i < length js" for i
    using nth_mem [of i ?is] l by simp
  have "repr_list g (pick is vs) (pick is js)"
    using assms i by (auto simp: p repr_list_iff l)
  moreover have "set (fp_list g (pick is vs) (pick is js)) \<subseteq> set (fp_list g vs js)"
    using i by (auto simp: p fp_list_conv l)
  ultimately show ?thesis ..
qed

section \<open>The notifications of the merge\<close>

text \<open>
  What the receiver announces, without the handles: \<open>Added k\<close> for \<open>itemAdded(k, _)\<close>,
  \<open>Removed k\<close> for \<open>itemRemoved(k, _)\<close>. An entry of the argument announces nothing
  when it is merged into a container of the same kind, an insertion when the receiver
  lacks its key, and a removal and an insertion when it replaces a conflicting entry.
\<close>

datatype notice = Added key | Removed key

fun mergeable :: "json \<Rightarrow> json \<Rightarrow> bool" where
  "mergeable (JSObj _) (JSObj _) = True"
| "mergeable (JSArr _) (JSArr _) = True"
| "mergeable _ _ = False"

definition entry_notes :: "replacement_policy \<Rightarrow> (key \<times> json) list \<Rightarrow> key \<Rightarrow> json \<Rightarrow> notice list" where
  "entry_notes rp acc k jb =
     (case map_of acc k of
        None \<Rightarrow> (if k = [] then [] else [Added k])
      | Some ja \<Rightarrow> (if mergeable ja jb \<or> k = [] \<or> rp = Ignore then [] else [Removed k, Added k]))"

fun amerge_notes :: "replacement_policy \<Rightarrow> 'p array_select \<Rightarrow> 'p \<Rightarrow>
    (key \<times> json) list \<Rightarrow> (key \<times> json) list \<Rightarrow> notice list" where
  "amerge_notes rp sel up acc [] = []"
| "amerge_notes rp sel up acc ((k, jb) # bs) =
     entry_notes rp acc k jb @ amerge_notes rp sel up (amerge_entry rp sel up acc k jb) bs"

fun ev_note :: "event \<Rightarrow> notice" where
  "ev_note (ItemAdded k _) = Added k"
| "ev_note (ItemRemoved k _) = Removed k"

definition notes_on :: "oref \<Rightarrow> (oref \<times> event) list \<Rightarrow> notice list" where
  "notes_on t es = map (ev_note \<circ> snd) (filter (\<lambda>x. fst x = t) es)"

lemma notes_on_append [simp]: "notes_on t (xs @ ys) = notes_on t xs @ notes_on t ys"
  by (simp add: notes_on_def)

lemma notes_on_other: "\<forall>x \<in> set es. fst x \<noteq> t \<Longrightarrow> notes_on t es = []"
  by (simp add: notes_on_def filter_empty_conv)

lemma mergeable_iff:
  "mergeable ja jb \<longleftrightarrow> (\<exists>fa fb. ja = JSObj fa \<and> jb = JSObj fb) \<or> (\<exists>xa xb. ja = JSArr xa \<and> jb = JSArr xb)"
  by (cases ja; cases jb) simp_all

lemma amerge_conflict_scalar:
  "\<not> (\<exists>fa fb. ja = JSObj fa \<and> jb = JSObj fb) \<Longrightarrow> \<not> (\<exists>xa xb. ja = JSArr xa \<and> jb = JSArr xb) \<Longrightarrow>
   amerge_conflict rp sel up acc k ja jb =
     (if k = [] \<or> rp = Ignore then acc else AList.update k jb (AList.delete k acc))"
  by (cases ja; cases jb) auto

lemma amerge_entry_other:
  "k' \<noteq> k \<Longrightarrow> map_of (amerge_entry rp sel up acc k jb) k' = map_of acc k'"
proof (cases "map_of acc k")
  case (Some ja)
  assume k: "k' \<noteq> k"
  show ?thesis
  proof (cases "(\<exists>fa fb. ja = JSObj fa \<and> jb = JSObj fb) \<or> (\<exists>xa xb. ja = JSArr xa \<and> jb = JSArr xb)")
    case True
    with Some k show ?thesis by (auto simp: update_conv')
  next
    case False
    with Some k show ?thesis by (simp add: amerge_conflict_scalar update_conv' delete_conv')
  qed
qed (auto simp: update_conv' map_add_def split: option.splits)

section \<open>The receiver during the key loop\<close>

text \<open>
  \<open>dest_ok g t own R acc\<close>: the receiver \<open>t\<close> holds the abstract entries \<open>acc\<close>, each
  in its region or in the argument's region \<open>R\<close>; \<open>regions_ok\<close>: the regions are
  disjoint from each other, from \<open>R\<close> and from the receiver itself.
\<close>

definition dest_ok :: "heap \<Rightarrow> oref \<Rightarrow> (key \<Rightarrow> node set) \<Rightarrow> node set \<Rightarrow> (key \<times> json) list \<Rightarrow> bool" where
  "dest_ok g t own R acc \<longleftrightarrow> repr_fields g (hash_of g t) acc \<and> fields_in g own R (hash_of g t) acc
     \<and> distinct (map fst (hash_of g t))"

definition regions_ok :: "oref \<Rightarrow> (key \<Rightarrow> node set) \<Rightarrow> node set \<Rightarrow> bool" where
  "regions_ok t own R \<longleftrightarrow> ObjN t \<notin> R \<and> (\<forall>k. ObjN t \<notin> own k \<and> own k \<inter> R = {})
     \<and> (\<forall>k k'. k \<noteq> k' \<longrightarrow> own k \<inter> own k' = {})"

lemma regions_ok_disj:
  "regions_ok t own R \<Longrightarrow> X \<subseteq> insert (ObjN t) (own k) \<Longrightarrow> k' \<noteq> k \<Longrightarrow> X \<inter> (own k' \<union> R) = {}"
  unfolding regions_ok_def by blast

lemma dest_write:
  assumes "regions_ok t own R" "repr_fields g kvs fs" "fields_in g own R kvs fs" "distinct (map fst kvs)"
    "same_outside X g g'" "X \<subseteq> insert (ObjN t) (own k)" "hash_of g' t = AList.update k v' kvs"
    "repr g' v' j'" "set (fp g' v' j') \<subseteq> own k \<union> R"
  shows "dest_ok g' t own R (AList.update k j' fs)"
proof -
  have "\<forall>k' \<in> set (map fst kvs). k' \<noteq> k \<longrightarrow> X \<inter> (own k' \<union> R) = {}"
    using regions_ok_disj [OF assms(1,6)] by blast
  from fields_update [OF assms(2-5) this assms(8,9)] assms(4,7) show ?thesis
    by (simp add: dest_ok_def distinct_update)
qed

definition step_post :: "heap \<Rightarrow> heap \<Rightarrow> oref \<Rightarrow> (key \<Rightarrow> node set) \<Rightarrow> node set \<Rightarrow> key \<Rightarrow> (key \<times> json) list \<Rightarrow> bool" where
  "step_post g g' t own R k acc' \<longleftrightarrow> dest_ok g' t own R acc'
     \<and> same_outside (insert (ObjN t) (own k)) g g'
     \<and> (\<forall>k'. k' \<noteq> k \<longrightarrow> map_of (hash_of g' t) k' = map_of (hash_of g t) k')"

text \<open>
  \<open>emits g g' t X ns\<close>: from \<open>g\<close> to \<open>g'\<close> signals were only appended, each by the
  receiver \<open>t\<close> or by an object of \<open>X\<close>, and the receiver's announce \<open>ns\<close>.
\<close>

definition emits :: "heap \<Rightarrow> heap \<Rightarrow> oref \<Rightarrow> node set \<Rightarrow> notice list \<Rightarrow> bool" where
  "emits g g' t X ns \<longleftrightarrow> (\<exists>es. signals g' = signals g @ es
     \<and> (\<forall>x \<in> set es. fst x = t \<or> ObjN (fst x) \<in> X) \<and> notes_on t es = ns)"

lemma emits_refl [simp]: "emits g g t X []"
  unfolding emits_def by (rule exI [of _ "[]"]) (simp add: notes_on_def)

lemma emits_trans:
  "emits g g1 t X ns1 \<Longrightarrow> emits g1 g2 t Y ns2 \<Longrightarrow> emits g g2 t (X \<union> Y) (ns1 @ ns2)"
  unfolding emits_def by (elim exE conjE, rule_tac x = "es @ esa" in exI) auto

lemma emits_mono: "emits g g' t X ns \<Longrightarrow> X \<subseteq> Y \<Longrightarrow> emits g g' t Y ns"
  unfolding emits_def by blast

lemma emits_store: "emits g (store_obj t k v g) t X [Added k]"
  unfolding emits_def by (rule exI [of _ "[(t, ItemAdded k v)]"]) (simp add: notes_on_def)

lemma emits_erase: "emits g (erase_obj t (k, v) g) t X [Removed k]"
  unfolding emits_def by (rule exI [of _ "[(t, ItemRemoved k v)]"]) (simp add: notes_on_def)

lemma emits_silent: "signals g' = signals g \<Longrightarrow> emits g g' t X []"
  unfolding emits_def by (rule exI [of _ "[]"]) (simp add: notes_on_def)

lemma step_absent:
  assumes d: "dest_ok g t own R acc" and ro: "regions_ok t own R"
    and a: "map_of (hash_of g t) k = None"
    and b: "map_of (hash_of g b) k = Some vb" "repr g vb jb" "set (fp g vb jb) \<subseteq> R"
  shows "\<exists>g'. unite_step n au t b k rp up g = Some g' \<and> step_post g g' t own R k (amerge_entry rp sel up acc k jb)
           \<and> emits g g' t (own k) (entry_notes rp acc k jb)"
proof -
  have acc: "map_of acc k = None" using a d repr_fields_map_of_None by (auto simp: dest_ok_def)
  have c: "\<not> contains_obj t k g" "value_obj b k g = vb" using a b by (simp_all add: contains_obj_def value_obj_def)
  show ?thesis
  proof (cases "k = []")
    case True
    with c acc d show ?thesis by (simp add: insert_obj_def step_post_def entry_notes_def)
  next
    case False
    let ?g' = "store_obj t k vb g"
    have so: "same_outside {ObjN t} g ?g'" by (simp add: same_outside_def)
    have "ObjN t \<notin> R" using ro by (simp add: regions_ok_def)
    then have "set (fp g vb jb) \<inter> {ObjN t} = {}" using b by blast
    from repr_frame(1) [OF b(2) this so] b(3) have vb: "repr ?g' vb jb" "set (fp ?g' vb jb) \<subseteq> own k \<union> R"
      by auto
    have "dest_ok ?g' t own R (AList.update k jb acc)"
      using d dest_write [OF ro _ _ _ so _ _ vb, of "hash_of g t" acc] by (simp add: dest_ok_def)
    moreover have "same_outside (insert (ObjN t) (own k)) g ?g'" using so same_outside_mono by blast
    ultimately show ?thesis using c acc False a emits_store [where X = "own k"]
      by (simp add: insert_obj_def add_obj_def step_post_def update_conv' entry_notes_def)
  qed
qed

lemma step_scalar:
  assumes d: "dest_ok g t own R acc" and ro: "regions_ok t own R"
    and a: "map_of (hash_of g t) k = Some v1" "map_of acc k = Some ja"
    and b: "map_of (hash_of g b) k = Some vb" "repr g vb jb" "set (fp g vb jb) \<subseteq> R"
    and no: "\<not> (\<exists>fa fb. ja = JSObj fa \<and> jb = JSObj fb)" "\<not> (\<exists>xa xb. ja = JSArr xa \<and> jb = JSArr xb)"
  shows "\<exists>g'. unite_step n au t b k rp up g = Some g' \<and> step_post g g' t own R k (amerge_entry rp sel up acc k jb)
           \<and> emits g g' t (own k) (entry_notes rp acc k jb)"
proof -
  have r: "repr g v1 ja" using d a repr_fields_entry by (auto simp: dest_ok_def)
  have c: "contains_obj t k g" "value_obj t k g = v1" "value_obj b k g = vb"
    using a b by (simp_all add: contains_obj_def value_obj_def)
  have nobj: "\<not> (isObject (cell g v1) \<and> isObject (cell g vb))"
    using no(1) repr_JObject [OF r] repr_JObject [OF b(2)] isObject_iff by metis
  have narr: "\<not> (isArray (cell g v1) \<and> isArray (cell g vb))"
    using no(2) repr_JArray [OF r] repr_JArray [OF b(2)] isArray_iff by metis
  have e: "amerge_entry rp sel up acc k jb = (if k = [] \<or> rp = Ignore then acc else AList.update k jb (AList.delete k acc))"
    using a no by (simp add: amerge_conflict_scalar)
  have run: "unite_step n au t b k rp up g = Some (insert_obj t k (Some vb) rp g)"
    using c nobj narr by (cases "isObject (cell g v1)"; cases "isArray (cell g v1)") (simp_all add: Let_def)
  have nm: "\<not> mergeable ja jb" using no mergeable_iff by blast
  have "step_post g (insert_obj t k (Some vb) rp g) t own R k (amerge_entry rp sel up acc k jb)
      \<and> emits g (insert_obj t k (Some vb) rp g) t (own k) (entry_notes rp acc k jb)"
  proof (cases "k = [] \<or> rp = Ignore")
    case True
    with d e a show ?thesis
      by (cases rp) (simp_all add: insert_obj_def step_post_def entry_notes_def)
  next
    case False
    then have k: "k \<noteq> []" "rp = Replace" by (auto intro: replacement_policy.exhaust)
    let ?g' = "store_obj t k vb (erase_obj t (k, v1) g)"
    have so: "same_outside {ObjN t} g ?g'" by (simp add: same_outside_def)
    have "ObjN t \<notin> R" using ro by (simp add: regions_ok_def)
    then have "set (fp g vb jb) \<inter> {ObjN t} = {}" using b by blast
    from repr_frame(1) [OF b(2) this so] b(3) have vb: "repr ?g' vb jb" "set (fp ?g' vb jb) \<subseteq> own k \<union> R"
      by auto
    have "repr_fields g (AList.delete k (hash_of g t)) (AList.delete k acc)"
      "fields_in g own R (AList.delete k (hash_of g t)) (AList.delete k acc)"
      using fields_delete [of g "hash_of g t" acc own R k] d by (simp_all add: dest_ok_def)
    from dest_write [OF ro this _ so _ _ vb] d
    have "dest_ok ?g' t own R (AList.update k jb (AList.delete k acc))"
      by (simp add: dest_ok_def distinct_delete)
    moreover have "same_outside (insert (ObjN t) (own k)) g ?g'" using so same_outside_mono by blast
    moreover have "emits g ?g' t (own k \<union> own k) ([Removed k] @ [Added k])"
      by (rule emits_trans [OF emits_erase emits_store])
    ultimately show ?thesis using k e a nm
      by (simp add: insert_obj_def add_obj_def step_post_def entry_notes_def)
  qed
  with run show ?thesis by blast
qed

definition select_unite :: "'p array_select \<Rightarrow> 'p array_unite" where
  "select_unite sel up xs ys = pick (sel up (length xs) (length ys)) (xs @ ys)"

lemma step_arrays:
  assumes d: "dest_ok g t own R acc" and ro: "regions_ok t own R"
    and a: "map_of (hash_of g t) k = Some v1" "map_of acc k = Some (JSArr xa)"
      "set (fp g v1 (JSArr xa)) = own k" "distinct (fp g v1 (JSArr xa))"
    and b: "map_of (hash_of g b) k = Some vb" "repr g vb (JSArr xb)" "set (fp g vb (JSArr xb)) \<subseteq> R"
  shows "\<exists>g'. unite_step n (select_unite sel) t b k rp up g = Some g'
           \<and> step_post g g' t own R k (amerge_entry rp sel up acc k (JSArr xb))
           \<and> emits g g' t (own k) (entry_notes rp acc k (JSArr xb))"
proof -
  have r: "repr g v1 (JSArr xa)"
    using d a repr_fields_entry [of g "hash_of g t" acc k v1] by (simp add: dest_ok_def)
  obtain a1 where c1: "cell g v1 = JArray a1" using repr_JSArr [OF r] by blast
  obtain a2 where c2: "cell g vb = JArray a2" using repr_JSArr [OF b(2)] by blast
  have l1: "repr_list g (elems g a1) xa" using r c1 by simp
  have l2: "repr_list g (elems g a2) xb" using b(2) c2 by simp
  have c: "contains_obj t k g" "value_obj t k g = v1" "value_obj b k g = vb"
    using a b by (simp_all add: contains_obj_def value_obj_def)
  let ?js = "pick (sel up (length xa) (length xb)) (xa @ xb)"
  let ?ys = "pick (sel up (length xa) (length xb)) (elems g a1 @ elems g a2)"
  let ?g' = "set_elems a1 ?ys g"
  have len: "length (elems g a1) = length xa" "length (elems g a2) = length xb"
    using l1 l2 repr_list_iff by blast+
  have run: "unite_step n (select_unite sel) t b k rp up g = Some ?g'"
    using c c1 c2 len by (simp add: unite_arr_def select_unite_def)
  have ap: "repr_list g (elems g a1 @ elems g a2) (xa @ xb)"
    "set (fp_list g (elems g a1 @ elems g a2) (xa @ xb)) = set (fp_list g (elems g a1) xa) \<union> set (fp_list g (elems g a2) xb)"
    using repr_list_append [OF l1 l2] by simp_all
  have pk: "repr_list g ?ys ?js" "set (fp_list g ?ys ?js) \<subseteq> set (fp_list g (elems g a1) xa) \<union> set (fp_list g (elems g a2) xb)"
    using pick_repr [OF ap(1)] ap(2) by simp_all
  have own: "ArrN a1 \<in> own k" using a(3) c1 by auto
  have "ArrN a1 \<notin> set (fp_list g (elems g a1) xa)" using a(4) c1 by simp
  moreover have "ArrN a1 \<notin> set (fp_list g (elems g a2) xb)"
    using own b(3) c2 ro by (auto simp: regions_ok_def)
  ultimately have dis: "set (fp_list g ?ys ?js) \<inter> {ArrN a1} = {}" using pk(2) by blast
  have so: "same_outside {ArrN a1} g ?g'" by (simp add: same_outside_def)
  from repr_frame(2) [OF pk(1) dis so]
  have "repr ?g' v1 (JSArr ?js)" "set (fp ?g' v1 (JSArr ?js)) \<subseteq> own k \<union> R"
    using c1 pk(2) own a(3) b(3) c2 by auto
  moreover have "hash_of ?g' t = AList.update k v1 (hash_of g t)" using a by (simp add: update_same)
  ultimately have "dest_ok ?g' t own R (AList.update k (JSArr ?js) acc)"
    using d dest_write [OF ro _ _ _ so _ _, of "hash_of g t" acc] own by (simp add: dest_ok_def)
  moreover have "same_outside (insert (ObjN t) (own k)) g ?g'" using so own same_outside_mono by blast
  moreover have "emits g ?g' t (own k) []" by (rule emits_silent) simp
  ultimately show ?thesis using run a by (simp add: step_post_def entry_notes_def)
qed

section \<open>The nested merges\<close>

text \<open>
  \<open>merge_ok n sel\<close>: with fuel \<open>n\<close>, \<open>unite\<close> of two disjoint documents, the receiver
  a tree, returns; the receiver then holds the abstract merge, only the receiver's
  footprint was written, and the result lies in the two footprints.
\<close>

text \<open>
  \<open>merge_post g g' va t b fa fb fm ns\<close>: the receiver's handle now holds the merge
  \<open>fm\<close>, only the receiver's footprint was written, the result lies in the receiver's
  footprint and the argument's entries, the receiver announced \<open>ns\<close>, and a key the
  receiver lacked now holds the argument's handle itself.
\<close>

definition merge_post :: "heap \<Rightarrow> heap \<Rightarrow> vref \<Rightarrow> oref \<Rightarrow> oref \<Rightarrow>
    (key \<times> json) list \<Rightarrow> (key \<times> json) list \<Rightarrow> (key \<times> json) list \<Rightarrow> notice list \<Rightarrow> bool" where
  "merge_post g g' va t b fa fb fm ns \<longleftrightarrow> repr g' va (JSObj fm)
     \<and> same_outside (set (fp g va (JSObj fa))) g g'
     \<and> set (fp g' va (JSObj fm)) \<subseteq> set (fp g va (JSObj fa)) \<union> set (fp_fields g (hash_of g b) fb)
     \<and> emits g g' t (set (fp g va (JSObj fa))) ns
     \<and> (\<forall>k v. k \<noteq> [] \<longrightarrow> map_of (hash_of g t) k = None \<longrightarrow> map_of (hash_of g b) k = Some v \<longrightarrow>
          map_of (hash_of g' t) k = Some v)"

definition merge_ok :: "nat \<Rightarrow> 'p array_select \<Rightarrow> bool" where
  "merge_ok n sel \<longleftrightarrow> (\<forall>g va vb t b fa fb rp up.
     cell g va = JObject t \<longrightarrow> cell g vb = JObject b \<longrightarrow>
     repr g va (JSObj fa) \<longrightarrow> repr g vb (JSObj fb) \<longrightarrow> distinct (fp g va (JSObj fa)) \<longrightarrow>
     set (fp g va (JSObj fa)) \<inter> set (fp g vb (JSObj fb)) = {} \<longrightarrow>
     keys_ok (JSObj fa) \<longrightarrow> keys_ok (JSObj fb) \<longrightarrow> depth (JSObj fb) \<le> n \<longrightarrow>
     (\<exists>g'. unite_obj n (select_unite sel) t (Some b) rp up g = Some g'
        \<and> merge_post g g' va t b fa fb (amerge rp sel up fa fb) (amerge_notes rp sel up fa fb)))"

lemma merge_okD:
  "merge_ok n sel \<Longrightarrow> cell g va = JObject t \<Longrightarrow> cell g vb = JObject b \<Longrightarrow>
   repr g va (JSObj fa) \<Longrightarrow> repr g vb (JSObj fb) \<Longrightarrow> distinct (fp g va (JSObj fa)) \<Longrightarrow>
   set (fp g va (JSObj fa)) \<inter> set (fp g vb (JSObj fb)) = {} \<Longrightarrow>
   keys_ok (JSObj fa) \<Longrightarrow> keys_ok (JSObj fb) \<Longrightarrow> depth (JSObj fb) \<le> n \<Longrightarrow>
   \<exists>g'. unite_obj n (select_unite sel) t (Some b) rp up g = Some g'
        \<and> merge_post g g' va t b fa fb (amerge rp sel up fa fb) (amerge_notes rp sel up fa fb)"
  unfolding merge_ok_def by blast

lemma emits_retarget:
  assumes "emits g g' ob X ns" "ObjN ob \<in> X" "ObjN t \<notin> X"
  shows "emits g g' t X []"
proof -
  obtain es where es: "signals g' = signals g @ es" "\<forall>x \<in> set es. fst x = ob \<or> ObjN (fst x) \<in> X"
    using assms(1) by (auto simp: emits_def)
  have inX: "\<forall>x \<in> set es. ObjN (fst x) \<in> X" using es(2) assms(2) by auto
  then have "\<forall>x \<in> set es. fst x \<noteq> t" using assms(3) by auto
  with es(1) inX show ?thesis unfolding emits_def using notes_on_other by blast
qed

lemma step_objects:
  assumes ok: "merge_ok n sel" and d: "dest_ok g t own R acc" and ro: "regions_ok t own R"
    and a: "map_of (hash_of g t) k = Some v1" "map_of acc k = Some (JSObj fa)"
      "set (fp g v1 (JSObj fa)) = own k" "distinct (fp g v1 (JSObj fa))" "keys_ok (JSObj fa)"
    and b: "map_of (hash_of g b) k = Some vb" "repr g vb (JSObj fb)" "set (fp g vb (JSObj fb)) \<subseteq> R"
      "keys_ok (JSObj fb)" "depth (JSObj fb) \<le> n"
  shows "\<exists>g'. unite_step n (select_unite sel) t b k rp up g = Some g'
           \<and> step_post g g' t own R k (amerge_entry rp sel up acc k (JSObj fb))
           \<and> emits g g' t (own k) (entry_notes rp acc k (JSObj fb))"
proof -
  have r: "repr g v1 (JSObj fa)"
    using d a repr_fields_entry [of g "hash_of g t" acc k v1] by (simp add: dest_ok_def)
  obtain o1 where c1: "cell g v1 = JObject o1" using repr_JSObj [OF r] by blast
  obtain o2 where c2: "cell g vb = JObject o2" using repr_JSObj [OF b(2)] by blast
  have dis: "set (fp g v1 (JSObj fa)) \<inter> set (fp g vb (JSObj fb)) = {}"
    using a(3) b(3) ro by (auto simp: regions_ok_def)
  obtain g' where m0: "unite_obj n (select_unite sel) o1 (Some o2) rp up g = Some g'"
      "repr g' v1 (JSObj (amerge rp sel up fa fb))" "same_outside (set (fp g v1 (JSObj fa))) g g'"
      "set (fp g' v1 (JSObj (amerge rp sel up fa fb))) \<subseteq> set (fp g v1 (JSObj fa)) \<union> set (fp_fields g (hash_of g o2) fb)"
      "emits g g' o1 (set (fp g v1 (JSObj fa))) (amerge_notes rp sel up fa fb)"
    using merge_okD [OF ok c1 c2 r b(2) a(4) dis a(5) b(4,5), of rp up] unfolding merge_post_def by blast
  have fb2: "set (fp_fields g (hash_of g o2) fb) \<subseteq> R" using b(3) c2 by auto
  have m: "unite_obj n (select_unite sel) o1 (Some o2) rp up g = Some g'"
      "repr g' v1 (JSObj (amerge rp sel up fa fb))" "same_outside (own k) g g'"
      "set (fp g' v1 (JSObj (amerge rp sel up fa fb))) \<subseteq> own k \<union> R"
  proof -
    have "same_outside (own k) g g'" using m0(3) a(3) by (simp only:)
    moreover have "set (fp g' v1 (JSObj (amerge rp sel up fa fb))) \<subseteq> own k \<union> R"
      using m0(4) a(3) fb2 by (simp only:) blast
    ultimately show "unite_obj n (select_unite sel) o1 (Some o2) rp up g = Some g'"
      "repr g' v1 (JSObj (amerge rp sel up fa fb))" "same_outside (own k) g g'"
      "set (fp g' v1 (JSObj (amerge rp sel up fa fb))) \<subseteq> own k \<union> R"
      using m0(1,2) by simp_all
  qed
  have c: "contains_obj t k g" "value_obj t k g = v1" "value_obj b k g = vb"
    using a b by (simp_all add: contains_obj_def value_obj_def)
  have run: "unite_step n (select_unite sel) t b k rp up g = Some g'"
    using c c1 c2 m(1) by simp
  have nt: "ObjN t \<notin> own k" using ro by (simp add: regions_ok_def)
  then have h: "hash_of g' t = hash_of g t" using m(3) by (simp add: same_outside_def)
  have "ObjN o1 \<in> set (fp g v1 (JSObj fa))" using c1 by simp
  then have "emits g g' t (set (fp g v1 (JSObj fa))) []"
    by (rule emits_retarget [OF m0(5)]) (simp only: a(3) nt, simp)
  then have em: "emits g g' t (own k) []" using a(3) by (simp only:)
  have "hash_of g' t = AList.update k v1 (hash_of g t)" using h a(1) by (simp add: update_same)
  then have "dest_ok g' t own R (AList.update k (JSObj (amerge rp sel up fa fb)) acc)"
    using d dest_write [OF ro _ _ _ m(3) subset_insertI _ m(2,4), of "hash_of g t" acc] by (simp add: dest_ok_def)
  moreover have "same_outside (insert (ObjN t) (own k)) g g'" using m(3) same_outside_mono by blast
  ultimately show ?thesis using run a(1,2) h em by (simp add: step_post_def entry_notes_def)
qed

lemma step_refines:
  assumes ok: "merge_ok n sel" and d: "dest_ok g t own R acc" and ro: "regions_ok t own R"
    and b: "map_of (hash_of g b) k = Some vb" "repr g vb jb" "set (fp g vb jb) \<subseteq> R"
      "keys_ok jb" "depth jb \<le> n"
    and pend: "\<forall>v j. map_of (hash_of g t) k = Some v \<longrightarrow> map_of acc k = Some j \<longrightarrow>
      set (fp g v j) = own k \<and> distinct (fp g v j) \<and> keys_ok j"
  shows "\<exists>g'. unite_step n (select_unite sel) t b k rp up g = Some g'
           \<and> step_post g g' t own R k (amerge_entry rp sel up acc k jb)
           \<and> emits g g' t (own k) (entry_notes rp acc k jb)"
proof (cases "map_of (hash_of g t) k")
  case None
  show ?thesis by (rule step_absent [OF d ro None b(1-3)])
next
  case (Some v1)
  then obtain ja where ja: "map_of acc k = Some ja"
    using d repr_fields_map_of [of g "hash_of g t" acc k v1] by (auto simp: dest_ok_def)
  have p: "set (fp g v1 ja) = own k" "distinct (fp g v1 ja)" "keys_ok ja" using pend Some ja by auto
  consider (obj) fa fb where "ja = JSObj fa" "jb = JSObj fb"
    | (arr) xa xb where "ja = JSArr xa" "jb = JSArr xb"
    | (other) "\<not> (\<exists>fa fb. ja = JSObj fa \<and> jb = JSObj fb)" "\<not> (\<exists>xa xb. ja = JSArr xa \<and> jb = JSArr xb)"
    by blast
  then show ?thesis
  proof cases
    case obj
    show ?thesis unfolding obj(2)
      by (rule step_objects [OF ok d ro Some ja [unfolded obj(1)] p [unfolded obj(1)] b(1)
            b(2-5) [unfolded obj(2)]])
  next
    case arr
    show ?thesis unfolding arr(2)
      by (rule step_arrays [OF d ro Some ja [unfolded arr(1)] p(1,2) [unfolded arr(1)] b(1)
            b(2,3) [unfolded arr(2)]])
  next
    case other
    show ?thesis by (rule step_scalar [OF d ro Some ja b(1-3) other])
  qed
qed

section \<open>The key loop\<close>

definition pending :: "heap \<Rightarrow> oref \<Rightarrow> (key \<Rightarrow> node set) \<Rightarrow> (key \<times> json) list \<Rightarrow> key list \<Rightarrow> bool" where
  "pending g t own acc ks \<longleftrightarrow> (\<forall>k \<in> set ks. \<forall>v j. map_of (hash_of g t) k = Some v \<longrightarrow> map_of acc k = Some j \<longrightarrow>
     set (fp g v j) = own k \<and> distinct (fp g v j) \<and> keys_ok j)"

lemma pending_step:
  assumes "pending g t own acc (k # ks)" "k \<notin> set ks" "regions_ok t own R" "dest_ok g t own R acc"
    "step_post g g' t own R k (amerge_entry rp sel up acc k jb)"
  shows "pending g' t own (amerge_entry rp sel up acc k jb) ks"
  unfolding pending_def
proof (intro ballI allI impI)
  fix k' v j
  assume k': "k' \<in> set ks" and v: "map_of (hash_of g' t) k' = Some v"
    and j: "map_of (amerge_entry rp sel up acc k jb) k' = Some j"
  have ne: "k' \<noteq> k" using k' assms(2) by blast
  have v0: "map_of (hash_of g t) k' = Some v" using v assms(5) ne by (simp add: step_post_def)
  have j0: "map_of acc k' = Some j" using j by (simp only: amerge_entry_other [OF ne])
  have p: "set (fp g v j) = own k' \<and> distinct (fp g v j) \<and> keys_ok j"
    using assms(1) k' v0 j0 by (simp add: pending_def)
  have r: "repr g v j"
    using assms(4) v0 j0 repr_fields_entry [of g "hash_of g t" acc k' v j] by (simp add: dest_ok_def)
  have "set (fp g v j) \<inter> insert (ObjN t) (own k) = {}"
    using p regions_ok_disj [OF assms(3) subset_refl ne] by blast
  moreover have "same_outside (insert (ObjN t) (own k)) g g'" using assms(5) by (simp add: step_post_def)
  ultimately have "fp g' v j = fp g v j" using repr_frame(1) [OF r] by blast
  with p show "set (fp g' v j) = own k' \<and> distinct (fp g' v j) \<and> keys_ok j" by simp
qed

lemma unite_step_absent:
  "map_of (hash_of h t) k = None \<Longrightarrow> map_of (hash_of h b) k = Some vb \<Longrightarrow>
     unite_step n au t b k rp up h = Some (insert_obj t k (Some vb) rp h)"
  by (simp add: contains_obj_def value_obj_def)

lemma keys_refines:
  assumes ok: "merge_ok n sel"
  shows "repr_fields g kbs bs \<Longrightarrow> distinct (map fst kbs) \<Longrightarrow>
    (\<forall>(k, v) \<in> set kbs. map_of (hash_of g b) k = Some v) \<Longrightarrow>
    set (fp_fields g kbs bs) \<subseteq> R \<Longrightarrow> keys_ok_fields bs \<Longrightarrow> depth_fields bs \<le> n \<Longrightarrow>
    dest_ok g t own R acc \<Longrightarrow> regions_ok t own R \<Longrightarrow> ObjN b \<notin> insert (ObjN t) (\<Union>k. own k) \<Longrightarrow>
    pending g t own acc (map fst kbs) \<Longrightarrow>
    \<exists>g'. unite_keys n (select_unite sel) t b (map fst kbs) rp up g = Some g'
      \<and> dest_ok g' t own R (amerge rp sel up acc bs)
      \<and> same_outside (insert (ObjN t) (\<Union>k. own k)) g g'
      \<and> emits g g' t (\<Union>k. own k) (amerge_notes rp sel up acc bs)
      \<and> (\<forall>k. k \<notin> set (map fst kbs) \<longrightarrow> map_of (hash_of g' t) k = map_of (hash_of g t) k)
      \<and> (\<forall>k v. k \<noteq> [] \<longrightarrow> map_of (hash_of g t) k = None \<longrightarrow> map_of kbs k = Some v \<longrightarrow>
           map_of (hash_of g' t) k = Some v)"
proof (induction kbs arbitrary: bs g acc)
  case Nil
  then have "bs = []" by (cases bs) simp_all
  then show ?case using Nil.prems(7) by simp
next
  case (Cons p kbs)
  obtain k vb jb bs' where p: "p = (k, vb)" and bs: "bs = (k, jb) # bs'"
    using Cons.prems(1) by (cases p; cases bs) (auto elim: repr_fields.elims)
  have r: "repr g vb jb" "repr_fields g kbs bs'" using Cons.prems(1) by (simp_all add: p bs)
  have f: "set (fp g vb jb) \<subseteq> R" "set (fp_fields g kbs bs') \<subseteq> R" using Cons.prems(4) by (simp_all add: p bs)
  have kb: "map_of (hash_of g b) k = Some vb" using Cons.prems(3) by (simp add: p)
  have pd: "\<forall>v j. map_of (hash_of g t) k = Some v \<longrightarrow> map_of acc k = Some j \<longrightarrow>
      set (fp g v j) = own k \<and> distinct (fp g v j) \<and> keys_ok j"
    using Cons.prems(10) by (simp add: pending_def p)
  have kf: "keys_ok jb" "keys_ok_fields bs'" using Cons.prems(5) by (simp_all add: bs)
  have dp: "depth jb \<le> n" "depth_fields bs' \<le> n" using Cons.prems(6) by (simp_all add: bs)
  obtain g1 where s: "unite_step n (select_unite sel) t b k rp up g = Some g1"
      and post: "step_post g g1 t own R k (amerge_entry rp sel up acc k jb)"
      and em1: "emits g g1 t (own k) (entry_notes rp acc k jb)"
    using step_refines [OF ok Cons.prems(7,8) kb r(1) f(1) kf(1) dp(1) pd] by blast
  let ?X = "insert (ObjN t) (own k)"
  have so: "same_outside ?X g g1" using post by (simp add: step_post_def)
  have xr: "?X \<inter> R = {}" using Cons.prems(8) by (auto simp: regions_ok_def)
  have "set (fp_fields g kbs bs') \<inter> ?X = {}" using f(2) xr by blast
  from repr_frame(3) [OF r(2) this so] have r1: "repr_fields g1 kbs bs'" "fp_fields g1 kbs bs' = fp_fields g kbs bs'"
    by simp_all
  have "ObjN b \<notin> ?X" using Cons.prems(9) by blast
  then have hb: "hash_of g1 b = hash_of g b" using so by (simp add: same_outside_def)
  have pend1: "pending g1 t own (amerge_entry rp sel up acc k jb) (map fst kbs)"
    using pending_step [OF _ _ Cons.prems(8,7) post] Cons.prems(2,10) by (simp add: p)
  have d1: "dest_ok g1 t own R (amerge_entry rp sel up acc k jb)" using post by (simp add: step_post_def)
  have dk: "distinct (map fst kbs)" using Cons.prems(2) by simp
  have lk: "\<forall>(k, v) \<in> set kbs. map_of (hash_of g1 b) k = Some v" using Cons.prems(3) hb by (simp add: p)
  have f1: "set (fp_fields g1 kbs bs') \<subseteq> R" using r1(2) f(2) by simp
  obtain g2 where IH: "unite_keys n (select_unite sel) t b (map fst kbs) rp up g1 = Some g2"
      "dest_ok g2 t own R (amerge rp sel up (amerge_entry rp sel up acc k jb) bs')"
      "same_outside (insert (ObjN t) (\<Union>k. own k)) g1 g2"
      "emits g1 g2 t (\<Union>k. own k) (amerge_notes rp sel up (amerge_entry rp sel up acc k jb) bs')"
      "\<forall>k'. k' \<notin> set (map fst kbs) \<longrightarrow> map_of (hash_of g2 t) k' = map_of (hash_of g1 t) k'"
      "\<forall>k' v. k' \<noteq> [] \<longrightarrow> map_of (hash_of g1 t) k' = None \<longrightarrow> map_of kbs k' = Some v \<longrightarrow>
         map_of (hash_of g2 t) k' = Some v"
    using Cons.IH [OF r1(1) dk lk f1 kf(2) dp(2) d1 Cons.prems(8,9) pend1] by blast
  have "same_outside (?X \<union> insert (ObjN t) (\<Union>k. own k)) g g2" using same_outside_trans [OF so IH(3)] .
  then have same: "same_outside (insert (ObjN t) (\<Union>k. own k)) g g2" by (rule same_outside_mono) blast
  have "emits g g2 t (own k \<union> (\<Union>k. own k))
      (entry_notes rp acc k jb @ amerge_notes rp sel up (amerge_entry rp sel up acc k jb) bs')"
    by (rule emits_trans [OF em1 IH(4)])
  then have "emits g g2 t (\<Union>k. own k)
      (entry_notes rp acc k jb @ amerge_notes rp sel up (amerge_entry rp sel up acc k jb) bs')"
    by (rule emits_mono) blast
  moreover have "amerge_notes rp sel up acc bs
      = entry_notes rp acc k jb @ amerge_notes rp sel up (amerge_entry rp sel up acc k jb) bs'"
    by (simp only: bs amerge_notes.simps)
  ultimately have "emits g g2 t (\<Union>k. own k) (amerge_notes rp sel up acc bs)" by simp
  moreover note same
  moreover have "\<forall>k'. k' \<notin> set (map fst (p # kbs)) \<longrightarrow> map_of (hash_of g2 t) k' = map_of (hash_of g t) k'"
    using IH(5) post by (simp add: p step_post_def)
  moreover have "\<forall>k' v. k' \<noteq> [] \<longrightarrow> map_of (hash_of g t) k' = None \<longrightarrow> map_of (p # kbs) k' = Some v \<longrightarrow>
      map_of (hash_of g2 t) k' = Some v"
  proof (intro allI impI)
    fix k' v
    assume ne: "k' \<noteq> []" and none: "map_of (hash_of g t) k' = None" and kv: "map_of (p # kbs) k' = Some v"
    show "map_of (hash_of g2 t) k' = Some v"
    proof (cases "k' = k")
      case True
      have "unite_step n (select_unite sel) t b k rp up g = Some (insert_obj t k (Some vb) rp g)"
        by (rule unite_step_absent [OF none [unfolded True] kb])
      then have "g1 = insert_obj t k (Some vb) rp g" using s by (metis option.inject)
      then have "map_of (hash_of g1 t) k = Some vb"
        using ne none True by (simp add: insert_obj_map_of)
      moreover have "k \<notin> set (map fst kbs)" using Cons.prems(2) by (simp add: p)
      ultimately show ?thesis using IH(5) kv True by (simp add: p)
    next
      case False
      then have "map_of (hash_of g1 t) k' = None" using none post by (simp add: step_post_def)
      with IH(6) ne kv False show ?thesis by (simp add: p)
    qed
  qed
  ultimately show ?case using IH(1,2) s by (simp add: p bs)
qed


lemma merge_ok_Suc:
  assumes ok: "merge_ok n sel"
  shows "merge_ok (Suc n) sel"
  unfolding merge_ok_def
proof (intro allI impI)
  fix g va vb t b fa fb rp up
  assume ct: "cell g va = JObject t" and cb: "cell g vb = JObject b"
    and ra: "repr g va (JSObj fa)" and rb: "repr g vb (JSObj fb)" and da: "distinct (fp g va (JSObj fa))"
    and dis: "set (fp g va (JSObj fa)) \<inter> set (fp g vb (JSObj fb)) = {}"
    and ka: "keys_ok (JSObj fa)" and kb: "keys_ok (JSObj fb)" and dep: "depth (JSObj fb) \<le> Suc n"
  define own where "own = regions g (hash_of g t) fa"
  define R where "R = set (fp_fields g (hash_of g b) fb)"
  have rfa: "repr_fields g (hash_of g t) fa" using ra ct by simp
  have rfb: "repr_fields g (hash_of g b) fb" using rb cb by simp
  have fpa: "fp g va (JSObj fa) = ObjN t # fp_fields g (hash_of g t) fa" using ct by simp
  have fpb: "fp g vb (JSObj fb) = ObjN b # fp_fields g (hash_of g b) fb" using cb by simp
  have dka: "distinct (map fst (hash_of g t))" using ka repr_fields_keys [OF rfa] by simp
  have dkb: "distinct (map fst (hash_of g b))" using kb repr_fields_keys [OF rfb] by simp
  have dfa: "distinct (fp_fields g (hash_of g t) fa)" "ObjN t \<notin> set (fp_fields g (hash_of g t) fa)"
    using da fpa by simp_all
  have sub: "own k \<subseteq> set (fp_fields g (hash_of g t) fa)" for k
    using regions_sub [OF rfa] by (simp add: own_def)
  have RB: "R \<subseteq> set (fp g vb (JSObj fb))" using fpb by (auto simp: R_def)
  have "\<forall>k k'. k \<noteq> k' \<longrightarrow> own k \<inter> own k' = {}"
    using regions_disjoint [OF rfa dfa(1) dka] by (simp add: own_def)
  moreover have "ObjN t \<notin> R"
  proof -
    have "ObjN t \<in> set (fp g va (JSObj fa))" using fpa by simp
    with dis RB show ?thesis by blast
  qed
  moreover have "\<forall>k. ObjN t \<notin> own k \<and> own k \<inter> R = {}"
  proof -
    have "set (fp_fields g (hash_of g t) fa) \<subseteq> set (fp g va (JSObj fa))" using fpa by auto
    with sub dfa(2) dis RB show ?thesis by blast
  qed
  ultimately have ro: "regions_ok t own R" by (simp add: regions_ok_def)
  have dst: "dest_ok g t own R fa"
    using fields_in_regions [OF rfa dka] rfa dka by (simp add: dest_ok_def own_def)
  have pend: "pending g t own fa (map fst (hash_of g b))"
    unfolding pending_def
  proof (intro ballI allI impI)
    fix k v j
    assume v: "map_of (hash_of g t) k = Some v" and j: "map_of fa k = Some j"
    show "set (fp g v j) = own k \<and> distinct (fp g v j) \<and> keys_ok j"
      using v j distinct_fp_entry [OF rfa dfa(1) v j] keys_ok_entry [of fa k j] ka
      by (simp add: own_def regions_def)
  qed
  have lk: "\<forall>(k, v) \<in> set (hash_of g b). map_of (hash_of g b) k = Some v"
    using dkb by (auto intro: map_of_is_SomeI)
  have fR: "set (fp_fields g (hash_of g b) fb) \<subseteq> R" by (simp add: R_def)
  have W: "insert (ObjN t) (\<Union>k. own k) \<subseteq> set (fp g va (JSObj fa))" using sub fpa by auto
  have "ObjN b \<in> set (fp g vb (JSObj fb))" using fpb by simp
  then have nb: "ObjN b \<notin> insert (ObjN t) (\<Union>k. own k)" using W dis by blast
  have kfb: "keys_ok_fields fb" using kb by simp
  have dfb: "depth_fields fb \<le> n" using dep by simp
  obtain g' where L: "unite_keys n (select_unite sel) t b (map fst (hash_of g b)) rp up g = Some g'"
      "dest_ok g' t own R (amerge rp sel up fa fb)" "same_outside (insert (ObjN t) (\<Union>k. own k)) g g'"
      "emits g g' t (\<Union>k. own k) (amerge_notes rp sel up fa fb)"
      "\<forall>k v. k \<noteq> [] \<longrightarrow> map_of (hash_of g t) k = None \<longrightarrow> map_of (hash_of g b) k = Some v \<longrightarrow>
         map_of (hash_of g' t) k = Some v"
    using keys_refines [OF ok rfb dkb lk fR kfb dfb dst ro nb pend] by blast
  have run: "unite_obj (Suc n) (select_unite sel) t (Some b) rp up g = Some g'"
    using L(1) by (simp add: keys_obj_def)
  have so: "same_outside (set (fp g va (JSObj fa))) g g'" using same_outside_mono [OF L(3) W] .
  have cg: "cell g' = cell g" using so by (simp add: same_outside_def)
  have r': "repr g' va (JSObj (amerge rp sel up fa fb))" using L(2) ct cg by (simp add: dest_ok_def)
  have "set (fp_fields g' (hash_of g' t) (amerge rp sel up fa fb))
      \<subseteq> (\<Union>k \<in> set (map fst (hash_of g' t)). own k) \<union> R"
    using fields_in_fp L(2) by (simp add: dest_ok_def)
  moreover have "set (fp g' va (JSObj (amerge rp sel up fa fb)))
      = insert (ObjN t) (set (fp_fields g' (hash_of g' t) (amerge rp sel up fa fb)))"
    using ct cg by simp
  ultimately have "set (fp g' va (JSObj (amerge rp sel up fa fb))) \<subseteq> set (fp g va (JSObj fa)) \<union> R"
    using W by blast
  then have "set (fp g' va (JSObj (amerge rp sel up fa fb))) \<subseteq> set (fp g va (JSObj fa)) \<union> set (fp_fields g (hash_of g b) fb)"
    by (simp only: R_def)
  moreover have "emits g g' t (set (fp g va (JSObj fa))) (amerge_notes rp sel up fa fb)"
    using emits_mono [OF L(4)] W by blast
  ultimately have "merge_post g g' va t b fa fb (amerge rp sel up fa fb) (amerge_notes rp sel up fa fb)"
    using r' so L(5) by (simp add: merge_post_def)
  with run show "\<exists>g'. unite_obj (Suc n) (select_unite sel) t (Some b) rp up g = Some g'
        \<and> merge_post g g' va t b fa fb (amerge rp sel up fa fb) (amerge_notes rp sel up fa fb)"
    by blast
qed

lemma merge_ok_all: "merge_ok n sel"
proof (induction n)
  case 0
  show ?case by (simp add: merge_ok_def)
next
  case (Suc n)
  then show ?case by (rule merge_ok_Suc)
qed


section \<open>The refinement\<close>

text \<open>
  C30: \<open>unite\<close> refines the merge of documents. When the receiver's handle holds a tree
  document \<open>fa\<close>, the argument's handle a document \<open>fb\<close> disjoint from it, neither
  repeats a key, and the fuel is at least the nesting depth of \<open>fb\<close>, then \<open>unite\<close>
  returns, the receiver holds \<open>amerge fa fb\<close>, the argument still holds \<open>fb\<close>, and no
  container outside the receiver's document changed.
\<close>

theorem unite_refines_amerge:
  assumes "cell g va = JObject t" "cell g vb = JObject b"
    "repr g va (JSObj fa)" "repr g vb (JSObj fb)" "distinct (fp g va (JSObj fa))"
    "set (fp g va (JSObj fa)) \<inter> set (fp g vb (JSObj fb)) = {}"
    "keys_ok (JSObj fa)" "keys_ok (JSObj fb)" "depth (JSObj fb) \<le> n"
  shows "\<exists>g'. unite_obj n (select_unite sel) t (Some b) rp up g = Some g'
    \<and> repr g' va (JSObj (amerge rp sel up fa fb)) \<and> repr g' vb (JSObj fb)
    \<and> same_outside (set (fp g va (JSObj fa))) g g'"
proof -
  have "\<exists>g'. unite_obj n (select_unite sel) t (Some b) rp up g = Some g'
        \<and> merge_post g g' va t b fa fb (amerge rp sel up fa fb) (amerge_notes rp sel up fa fb)"
    by (rule merge_okD [OF merge_ok_all assms])
  then obtain g' where m: "unite_obj n (select_unite sel) t (Some b) rp up g = Some g'"
      "repr g' va (JSObj (amerge rp sel up fa fb))" "same_outside (set (fp g va (JSObj fa))) g g'"
    unfolding merge_post_def by blast
  have "set (fp g vb (JSObj fb)) \<inter> set (fp g va (JSObj fa)) = {}" using assms(6) by blast
  then have "repr g' vb (JSObj fb)" using repr_frame(1) [OF assms(4) _ m(3)] by blast
  with m show ?thesis by blast
qed

text \<open>
  C31: under the same conditions, \<open>unite\<close> only appends signals, every one of them
  from an object of the receiver's document, and the receiver's own \<open>itemAdded\<close> and
  \<open>itemRemoved\<close> signals are, key by key, those of \<open>amerge_notes\<close>: one insertion per
  added key, a removal then an insertion per replaced entry, nothing for merged
  containers or ignored conflicts.
\<close>

theorem unite_notifications:
  assumes "cell g va = JObject t" "cell g vb = JObject b"
    "repr g va (JSObj fa)" "repr g vb (JSObj fb)" "distinct (fp g va (JSObj fa))"
    "set (fp g va (JSObj fa)) \<inter> set (fp g vb (JSObj fb)) = {}"
    "keys_ok (JSObj fa)" "keys_ok (JSObj fb)" "depth (JSObj fb) \<le> n"
  shows "\<exists>g' es. unite_obj n (select_unite sel) t (Some b) rp up g = Some g'
    \<and> signals g' = signals g @ es \<and> notes_on t es = amerge_notes rp sel up fa fb
    \<and> (\<forall>x \<in> set es. ObjN (fst x) \<in> set (fp g va (JSObj fa)))"
proof -
  have "\<exists>g'. unite_obj n (select_unite sel) t (Some b) rp up g = Some g'
        \<and> merge_post g g' va t b fa fb (amerge rp sel up fa fb) (amerge_notes rp sel up fa fb)"
    by (rule merge_okD [OF merge_ok_all assms])
  then obtain g' where m: "unite_obj n (select_unite sel) t (Some b) rp up g = Some g'"
      "emits g g' t (set (fp g va (JSObj fa))) (amerge_notes rp sel up fa fb)"
    unfolding merge_post_def by blast
  from m(2) obtain es where es: "signals g' = signals g @ es"
      "\<forall>x \<in> set es. fst x = t \<or> ObjN (fst x) \<in> set (fp g va (JSObj fa))"
      "notes_on t es = amerge_notes rp sel up fa fb"
    unfolding emits_def by blast
  have "ObjN t \<in> set (fp g va (JSObj fa))" using assms(1) by simp
  with es(2) have "\<forall>x \<in> set es. ObjN (fst x) \<in> set (fp g va (JSObj fa))" by metis
  with m(1) es(1,3) show ?thesis by blast
qed

section \<open>An example\<close>

text \<open>
  Receiver \<open>{"x": {"y": 1}, "l": [3], "n": 5}\<close> at handle 3, argument
  \<open>{"x": {"z": 2}, "l": [4], "n": 6, "s": "t"}\<close> at handle 4, arrays combined by
  appending.
\<close>

definition merge_heap :: heap where
  "merge_heap =
     \<lparr>vals = [0 \<mapsto> JNull, 3 \<mapsto> JObject 10, 4 \<mapsto> JObject 20,
              11 \<mapsto> JObject 12, 13 \<mapsto> JDouble 1, 14 \<mapsto> JArray 5, 15 \<mapsto> JDouble 3, 16 \<mapsto> JDouble 5,
              21 \<mapsto> JObject 22, 23 \<mapsto> JDouble 2, 24 \<mapsto> JArray 6, 25 \<mapsto> JDouble 4,
              26 \<mapsto> JString ''t'', 27 \<mapsto> JDouble 6],
      objs = [2 \<mapsto> [], 10 \<mapsto> [(''x'', 11), (''l'', 14), (''n'', 16)], 12 \<mapsto> [(''y'', 13)],
              20 \<mapsto> [(''x'', 21), (''l'', 24), (''n'', 27), (''s'', 26)], 22 \<mapsto> [(''z'', 23)]],
      arrs = [1 \<mapsto> [], 5 \<mapsto> [15], 6 \<mapsto> [25]], lim = 30, signals = [],
      null_default = 0, array_default = 1, object_default = 2\<rparr>"

definition merge_fields_a :: "(key \<times> json) list" where
  "merge_fields_a = [(''x'', JSObj [(''y'', JSNum 1)]), (''l'', JSArr [JSNum 3]), (''n'', JSNum 5)]"

definition merge_fields_b :: "(key \<times> json) list" where
  "merge_fields_b = [(''x'', JSObj [(''z'', JSNum 2)]), (''l'', JSArr [JSNum 4]), (''n'', JSNum 6),
                     (''s'', JSStr ''t'')]"

definition append_select :: "unit array_select" where
  "append_select up m n = [0..<m + n]"

lemma merge_heap_docs:
  "cell merge_heap 3 = JObject 10" "cell merge_heap 4 = JObject 20"
  "repr merge_heap 3 (JSObj merge_fields_a)" "repr merge_heap 4 (JSObj merge_fields_b)"
  "distinct (fp merge_heap 3 (JSObj merge_fields_a))"
  "set (fp merge_heap 3 (JSObj merge_fields_a)) \<inter> set (fp merge_heap 4 (JSObj merge_fields_b)) = {}"
  "keys_ok (JSObj merge_fields_a)" "keys_ok (JSObj merge_fields_b)" "depth (JSObj merge_fields_b) \<le> 2"
  by (simp_all add: merge_heap_def merge_fields_a_def merge_fields_b_def cell_def hash_of_def elems_def)

lemma merge_heap_signals: "signals merge_heap = []"
  by (simp add: merge_heap_def)

lemma merge_example_amerge:
  "amerge Replace append_select () merge_fields_a merge_fields_b
     = [(''x'', JSObj [(''y'', JSNum 1), (''z'', JSNum 2)]), (''l'', JSArr [JSNum 3, JSNum 4]),
        (''n'', JSNum 6), (''s'', JSStr ''t'')]"
  by (simp add: merge_fields_a_def merge_fields_b_def append_select_def pick_def upt_rec)

lemma merge_example_notes:
  "amerge_notes Replace append_select () merge_fields_a merge_fields_b
     = [Removed ''n'', Added ''n'', Added ''s'']"
  by (simp add: merge_fields_a_def merge_fields_b_def entry_notes_def append_select_def pick_def upt_rec)

theorem unite_refines_amerge_witness:
  "\<exists>g'. unite_obj 2 (select_unite append_select) 10 (Some 20) Replace () merge_heap = Some g'
     \<and> repr g' 3 (JSObj [(''x'', JSObj [(''y'', JSNum 1), (''z'', JSNum 2)]),
                         (''l'', JSArr [JSNum 3, JSNum 4]), (''n'', JSNum 6), (''s'', JSStr ''t'')])
     \<and> repr g' 4 (JSObj merge_fields_b)"
  using unite_refines_amerge [OF merge_heap_docs, of append_select Replace "()"]
  unfolding merge_example_amerge by blast

theorem unite_notifications_witness:
  "\<exists>g' es. unite_obj 2 (select_unite append_select) 10 (Some 20) Replace () merge_heap = Some g'
     \<and> signals g' = es \<and> notes_on 10 es = [Removed ''n'', Added ''n'', Added ''s'']"
  using unite_notifications [OF merge_heap_docs, of append_select Replace "()"]
  unfolding merge_example_notes merge_heap_signals append_Nil by blast

end
