(* ===== verification/JsonDebug.thy ===== *)
theory JsonDebug
  imports JsonObject
begin

text \<open>
  The \<open>QDebug\<close> printers of src/src/core/qmjsonobject.cpp (lines 545--577). The text
  is modelled as a string. The printers put the stream in \<open>nospace\<close> mode under a
  \<open>QDebugStateSaver\<close>, so no separator is inserted between the pieces they write. How
  \<open>QDebug\<close> renders a \<open>QString\<close> key (quoted and escaped) and a value handle (the printer
  of \<open>QMJsonValue\<close>, not under src/) are the parameters \<open>pk\<close> and \<open>pv\<close>.
\<close>

text \<open>
  The loop of \<open>operator<<(QDebug, const QMJsonObject&)\<close> with its state: the flag
  \<open>started\<close> and the text written so far.
\<close>

fun debug_loop :: "(key \<Rightarrow> string) \<Rightarrow> (key \<Rightarrow> string) \<Rightarrow> bool \<Rightarrow> key list \<Rightarrow> string \<Rightarrow> string" where
  "debug_loop pk pe started [] out = out"
| "debug_loop pk pe started (k # ks) out =
     debug_loop pk pe True ks (out @ (if started then '','' else []) @ pk k @ '':'' @ pe k)"

definition debug_obj :: "(key \<Rightarrow> string) \<Rightarrow> (heap \<Rightarrow> vref \<Rightarrow> string) \<Rightarrow> oref \<Rightarrow> heap \<Rightarrow> string" where
  "debug_obj pk pv t h =
     debug_loop pk (\<lambda>k. pv h (value_obj t k h)) False (keys_obj t h) ''QMJsonObject{'' @ ''}''"

text \<open>\<open>operator<<(QDebug, const QMPointer<QMJsonObject>&)\<close>: a null pointer, or the object.\<close>

definition debug_ptr :: "(key \<Rightarrow> string) \<Rightarrow> (heap \<Rightarrow> vref \<Rightarrow> string) \<Rightarrow> oref option \<Rightarrow> heap \<Rightarrow> string" where
  "debug_ptr pk pv p h = (case p of None \<Rightarrow> ''QMPointer<QMJsonObject>: NULL'' | Some t \<Rightarrow> debug_obj pk pv t h)"

text \<open>The reference: the pieces joined by a separator.\<close>

fun join_with :: "string \<Rightarrow> string list \<Rightarrow> string" where
  "join_with sep [] = []"
| "join_with sep [x] = x"
| "join_with sep (x # y # xs) = x @ sep @ join_with sep (y # xs)"

lemma debug_loop_started:
  "debug_loop pk pe True ks out = out @ concat (map (\<lambda>k. '','' @ pk k @ '':'' @ pe k) ks)"
  by (induction ks arbitrary: out) simp_all

lemma join_with_Cons:
  "join_with sep (x # xs) = x @ concat (map (\<lambda>y. sep @ y) xs)"
  by (induction xs arbitrary: x) simp_all

text \<open>
  C32: the printer's loop, which writes a comma before every entry but the first by
  means of its flag \<open>started\<close>, writes the entries of \<open>keys()\<close> in order, as
  \<open>key:value\<close>, separated by single commas, between \<open>QMJsonObject{\<close> and \<open>}\<close>.
\<close>

theorem debug_obj_join:
  "debug_obj pk pv t h = ''QMJsonObject{''
     @ join_with '','' (map (\<lambda>k. pk k @ '':'' @ pv h (value_obj t k h)) (keys_obj t h)) @ ''}''"
proof (cases "keys_obj t h")
  case Nil
  then show ?thesis by (simp add: debug_obj_def)
next
  case (Cons k ks)
  then show ?thesis
    by (simp add: debug_obj_def debug_loop_started join_with_Cons comp_def)
qed

end
