(* ===== verification/Spec2Isabelle.thy ===== *)
theory Spec2Isabelle
  imports JsonUnite JsonClear JsonNumeric JsonContainer JsonMerge JsonDebug
begin

text \<open>
  \<^bold>\<open>QMJson: a verification development of the object container and its deep merge.\<close>

  \<^emph>\<open>The program.\<close> QMJson is an in-memory JSON document model. A \<open>QMJsonValue\<close>
  holds one of null, bool, number, string, array or object; \<open>QMJsonArray\<close> is a list of
  value handles; \<open>QMJsonObject\<close> (the one source file, src/src/core/qmjsonobject.cpp) maps
  string keys to value handles in a \<open>QHash\<close>, emits \<open>itemAdded\<close>/\<open>itemRemoved\<close>
  signals on every structural change, offers typed accessors that fall back to a
  default, and merges another object into itself with \<open>unite\<close>. Handles are
  reference-counted \<open>QMPointer\<close>s, so one value can sit in several containers and a
  write through one handle is seen through all of them.

  \<^emph>\<open>The theories.\<close>
  \<^item> \<open>Prelude\<close>: the model's type names (\<open>vref\<close>, \<open>oref\<close>, \<open>aref\<close> for handles,
    \<open>key\<close> for \<open>QString\<close>, \<open>'v hash\<close> for \<open>QHash\<close> as an association list in
    iteration order), the \<open>heap_simps\<close> collection and shared lemmas on association
    lists and maps.
  \<^item> \<open>JsonValue\<close>: \<open>QMJsonValue\<close>, modelled from its contract in the specification
    (the class is not under src/): the payload datatype \<open>jvalue\<close>, the kind tests
    \<open>isNull\<close> \<dots> \<open>isObject\<close>, the getters \<open>toBool\<close> \<dots> \<open>toObject\<close> with a
    default, and the setters \<open>fromBool\<close> \<dots> \<open>fromObject\<close> that return a change
    indicator.
  \<^item> \<open>JsonHeap\<close>: the store behind the handles, a record \<open>heap\<close> of value cells,
    object hashes and array lists with an allocation limit, the log of emitted
    signals, and the three function-local statics of the library (the shared "empty
    Null" that \<open>value(key)\<close> returns for a missing key, and the empty array and
    object of \<open>QMJsonValue::toArray()\<close>/\<open>toObject()\<close>). \<open>heap_wf\<close> is the
    invariant C++ gives by construction: keys are unique, no handle dangles.
  \<^item> \<open>JsonObject\<close>: the container methods of \<open>QMJsonObject\<close> (queries,
    \<open>insert\<close>, \<open>remove\<close>, \<open>take\<close>, lookups, kind tests, the bool, double, string,
    array and object accessors), one definition each, named after the method with
    suffix \<open>_obj\<close> (\<open>insert_obj\<close> is \<open>insert\<close>, \<open>take_dflt_obj\<close> is the
    \<open>take(key, default)\<close> overload, \<open>erase_obj\<close> the private \<open>erase\<close>). A method
    is a function of the object's handle and the heap; it returns the new heap, or the
    returned value paired with it.
  \<^item> \<open>JsonUnite\<close>: \<open>unite\<close> as three mutually recursive functions, the merge of one
    object (\<open>unite_obj\<close>), its loop over the snapshot \<open>object->keys()\<close>
    (\<open>unite_keys\<close>) and one iteration of that loop (\<open>unite_step\<close>). Array's
    \<open>unite\<close> (\<open>unite_arr\<close>) replaces the receiver array's element list by a function
    \<open>au\<close> of the two lists: the specification leaves the strategy open, so the
    theorems hold for every such function. A strategy that allocates new values or
    emits array signals is outside this shape.
  \<^item> \<open>JsonClear\<close>: \<open>clear\<close> as three mutually recursive functions, the clear of one
    object (\<open>clear_obj\<close>: its loop over \<open>mHash\<close> that clears nested objects and
    arrays, \<open>clear_vals\<close>, then the loop \<open>remove_keys\<close> that calls \<open>remove\<close> on
    each key of \<open>mHash.keys()\<close>) and the clear of an array (\<open>clear_arr\<close>, from
    the specification's section 4.3: clear the nested containers, then empty the list).
    The containers below a root are the nodes of a graph (\<open>node\<close>, \<open>succs\<close>,
    \<open>edge\<close>, \<open>reach\<close>) read off the heap.
  \<^item> \<open>JsonContainer\<close>: the constructors (\<open>QMJsonObject_new\<close>,
    \<open>QMJsonObject_from_hash\<close>); the abstract container, a finite map \<open>aobj\<close> with
    operations \<open>aop\<close> that return the notifications they owe, run over a list of
    operations by \<open>arun\<close>, and its concrete counterpart \<open>cop\<close>/\<open>crun\<close> on the
    heap; and the invariant \<open>keys_nonempty\<close> that no object holds the empty key.
  \<^item> \<open>JsonNumeric\<close>: the integer accessors \<open>toChar\<close> \<dots> \<open>toULongLong\<close> (with
    and without default) and the setters \<open>fromFloat\<close> \<dots> \<open>fromULongLong\<close>, one
    definition each over a word of the C++ width (LP64), sharing the shape
    \<open>toWord_obj\<close> and \<open>from_obj\<close>. The conversions of \<open>QMJsonValue\<close> are those
    of C++ on a \<open>double\<close> payload: a setter converts its integer to \<open>double\<close>,
    rounding to 53 significant bits, to nearest with ties to even
    (\<open>double_of_int\<close>, executable on integers); a getter truncates toward zero and is
    undefined (\<open>None\<close>) when the result does not fit the width (\<open>toWord\<close>).
  \<^item> \<open>JsonDoc\<close>: JSON documents as values (\<open>json\<close>), the relation \<open>repr\<close> between a
    handle of the heap and the document it holds, the footprint \<open>fp\<close> of a document
    (the objects and arrays it occupies; a tree has no repeated container), and the frame
    \<open>same_outside\<close>: a document whose footprint a change avoids reads the same after it.
  \<^item> \<open>JsonMerge\<close>: the specification of \<open>unite\<close> on documents, \<open>amerge\<close> (the
    decision of section 4.2 applied entry by entry, arrays combined by an index selection
    \<open>sel\<close>, \<open>select_unite\<close> on handles) with the notifications it owes
    (\<open>amerge_notes\<close>), and the proof that \<open>unite_obj\<close> implements it: one lemma per
    branch of \<open>unite_step\<close>, the loop invariant of \<open>unite_keys\<close> (\<open>dest_ok\<close>: the
    receiver holds the merge so far, each entry inside its own region of the receiver's
    footprint or inside the argument's), and induction on the fuel.
  \<^item> \<open>JsonDebug\<close>: the two \<open>QDebug\<close> printers (\<open>debug_obj\<close> with its loop
    \<open>debug_loop\<close>, \<open>debug_ptr\<close>), the text as a string; the rendering of a key and of
    a value handle by \<open>QDebug\<close> and \<open>QMJsonValue\<close> are parameters.

  \<^emph>\<open>Fuel.\<close> \<open>unite\<close> recurses once per level of nested objects and need not end on
    a cyclic heap, so it takes a fuel argument and returns \<open>None\<close> when the fuel runs
    out; more fuel never changes a result (\<open>unite_fuel_mono\<close>). A merge without
    nested conflicts returns with fuel 1 (C3); the scenario of section 8 needs fuel 2.
    Section "A merge that never returns" shows that no fuel suffices for some acyclic
    heaps whose documents share a value (C4). \<open>clear\<close> takes fuel for the same
    reason: it returns when fuel exceeds the rank of the receiver under any ranking of
    the containers below it that decreases along every entry, which exists exactly when
    the document has no cycle (C21); on an object that holds itself no fuel suffices
    (C24). The example document of C20--C23 needs fuel 3. On documents that are trees,
    disjoint from each other, fuel equal to the nesting depth of the argument suffices
    for \<open>unite\<close> (C30).

  \<^emph>\<open>What the theorems show.\<close> The container operations behave as the specification
  says on each branch, notifications included (C5--C14), and the typed accessors test
  kinds exclusively (C15) and fall back to the default (C16). After \<open>unite\<close> returns
  on two separate documents (\<open>unite_sep\<close>: a closed set of objects holds the children
  of both roots and neither root), the receiver's entries are the per-key decision
  \<open>unite_spec\<close> of the specification's section 4.2 (C1), and the argument and every
  object outside both documents are unchanged (C2). \<open>unite_nested_example\<close> and
  \<open>unite_policy_example\<close> replay the merge scenarios of section 8. Since \<open>unite\<close>
  inserts the argument's handles rather than copies, a later \<open>clear()\<close> of the receiver
  empties the objects the argument still holds under the keys it contributed (C19).
  When \<open>clear\<close> returns, every object and array reachable from the receiver is empty,
  also when one nested object is reached through several handles (C20); nothing outside
  the document changes (C22); and the receiver's entries leave through \<open>remove\<close>, one
  \<open>itemRemoved\<close> each in iteration order, after the nested clears' signals (C23).
  An integer setter followed by the getter of the same width returns the value set for
  the widths up to 32 bits, and for the 64-bit widths exactly when the value is
  representable as a \<open>double\<close> (C25); the setters store the value, rounded for 64-bit
  values of magnitude \<open>2 ^ 53\<close> and above (C26); and reading back a 64-bit value
  from \<open>2 ^ 63 - 2 ^ 9\<close> (signed) or \<open>2 ^ 64 - 2 ^ 10\<close> (unsigned) upward is
  undefined behaviour, because the stored double has been rounded out of the width's
  range (C27).
  Any sequence of \<open>insert\<close>, \<open>remove\<close> and \<open>take\<close> on an object refines the
  abstract container, notifications included (C28). Every operation keeps objects free
  of the empty key (C29); the hash constructor copies its argument unchecked.
  \<open>unite\<close> refines the merge of JSON documents: on a receiver that is a tree and an
  argument disjoint from it, it returns, the receiver then holds \<open>amerge\<close> of the two
  documents, the argument is unchanged and nothing outside the receiver's document is
  written (C30); its signals are those of the receiver's document, and the receiver's
  own are the abstract notifications, key by key (C31). The printer's flag-driven loop
  writes the entries joined by single commas (C32).
  The proof of C20 rests on the invariant \<open>cleared\<close>: a container whose contents
  changed has its whole original subtree already empty. Behaviours that differ from
  what the specification leads one to expect: \<open>fromX(key, v)\<close> on a missing key
  writes the shared static instead of creating the key, after which every missing-key
  lookup of every object returns \<open>v\<close> (C17); a handle write is seen through every
  container holding it (C18); a merge of documents that share a value can recurse
  forever (C4); clearing the receiver of a merge clears the argument's sub-documents
  (C19); a 64-bit integer round trip loses precision above \<open>2 ^ 53\<close> and is undefined
  near the top of the range (C25, C27).

  \<^emph>\<open>Not modelled.\<close> \<open>reserve\<close>, \<open>capacity\<close> and \<open>squeeze\<close> (capacity hints with no
  effect on contents, and a capacity that depends on \<open>QHash\<close>'s
  internal bucket allocation); the float getters \<open>toFloat\<close> (a narrowing of the
  stored \<open>double\<close> to \<open>float\<close>, with rounding to 24 bits and overflow to
  infinity, which the payload model, a real number without infinities or NaN, cannot
  express); reference counting and deallocation (no operation frees a reachable cell);
  the Qt signal delivery machinery (a signal is modelled as an entry appended to the
  log at the point it is emitted). The refinement of \<open>unite\<close> (C30, C31) fixes Array's
  strategy to a selection of elements of the two lists (\<open>select_unite\<close>); the
  theorems of \<open>JsonUnite\<close> hold for any function of the two element lists. Array
  strategies that allocate new values or emit signals are not modelled.
\<close>

section \<open>The merge scenarios of the specification\<close>

text \<open>
  The first scenario of section 8: with \<open>A = {"x": {"y": 1}}\<close> and \<open>B = {"x": {"z": 2}}\<close>, \<open>A.unite(B, Replace, p)\<close>
  keeps A's nested object and merges into it: it holds both \<open>"y"\<close> and \<open>"z"\<close>, for any
  array strategy and policy.
\<close>

theorem unite_nested_example:
  "\<exists>h'. unite_obj 2 au 10 (Some 20) Replace up nested_heap = Some h'
     \<and> hash_of h' 10 = [(''x'', 11)] \<and> hash_of h' 12 = [(''y'', 13), (''z'', 23)]
     \<and> cell h' 13 = JDouble 1 \<and> cell h' 23 = JDouble 2"
  by (simp add: eval_nat_numeral nested_heap_def keys_obj_def contains_obj_def value_obj_def
      hash_of_def cell_def insert_obj_def store_obj_def)

text \<open>
  The second scenario of section 8: with \<open>A = {"x": 1}\<close> and \<open>B = {"x": 2}\<close>, \<open>A.unite(B, Ignore, p)\<close> leaves
  \<open>A["x"] = 1\<close> and \<open>A.unite(B, Replace, p)\<close> makes it 2.
\<close>

definition scalar_heap :: heap where
  "scalar_heap =
     \<lparr>vals = [0 \<mapsto> JNull, 11 \<mapsto> JDouble 1, 21 \<mapsto> JDouble 2],
      objs = [2 \<mapsto> [], 10 \<mapsto> [(''x'', 11)], 20 \<mapsto> [(''x'', 21)]],
      arrs = [1 \<mapsto> []], lim = 30, signals = [],
      null_default = 0, array_default = 1, object_default = 2\<rparr>"

theorem unite_policy_example:
  "map_option (toDouble_obj 10 ''x'') (unite_obj 1 au 10 (Some 20) Ignore up scalar_heap) = Some 1
   \<and> map_option (toDouble_obj 10 ''x'') (unite_obj 1 au 10 (Some 20) Replace up scalar_heap) = Some 2"
  by (simp add: scalar_heap_def keys_obj_def contains_obj_def value_obj_def hash_of_def cell_def
      insert_obj_def store_obj_def erase_obj_def toDouble_obj_def)

section \<open>unite, then clear: the argument loses its nested containers\<close>

text \<open>
  \<open>unite\<close> inserts the argument's handle for a key the receiver lacks, not a copy of
  its document, and \<open>clear()\<close> empties every container reachable from the receiver. So
  clearing the receiver after a merge also clears what the argument still holds.
\<close>

text \<open>
  C19: after \<open>A.unite(B)\<close> on two disjoint tree documents and then \<open>A.clear()\<close>, a key
  \<open>k\<close> that only \<open>B\<close> had and that holds an object in \<open>B\<close> is still in \<open>B\<close>, with the
  same handle and the same object, but that object is now empty: \<open>clear()\<close> on the
  receiver emptied a sub-document of the argument.
\<close>

theorem unite_then_clear_empties_argument:
  assumes "cell g va = JObject t" "cell g vb = JObject b"
    "repr g va (JSObj fa)" "repr g vb (JSObj fb)" "distinct (fp g va (JSObj fa))"
    "set (fp g va (JSObj fa)) \<inter> set (fp g vb (JSObj fb)) = {}"
    "keys_ok (JSObj fa)" "keys_ok (JSObj fb)" "depth (JSObj fb) \<le> n"
    and tb: "distinct (fp g vb (JSObj fb))"
    and k: "k \<noteq> []" "map_of (hash_of g t) k = None" "map_of (hash_of g b) k = Some v" "cell g v = JObject x"
    and run: "unite_obj n (select_unite sel) t (Some b) rp up g = Some g1" "clear_obj m t g1 = Some g2"
  shows "map_of (hash_of g2 b) k = Some v \<and> cell g2 v = JObject x \<and> count_obj x g2 = 0"
proof -
  have "\<exists>g'. unite_obj n (select_unite sel) t (Some b) rp up g = Some g'
        \<and> merge_post g g' va t b fa fb (amerge rp sel up fa fb) (amerge_notes rp sel up fa fb)"
    by (rule merge_okD [OF merge_ok_all assms(1-9)])
  then have mp: "merge_post g g1 va t b fa fb (amerge rp sel up fa fb) (amerge_notes rp sel up fa fb)"
    using run(1) by auto
  then have r1: "repr g1 va (JSObj (amerge rp sel up fa fb))"
    and so: "same_outside (set (fp g va (JSObj fa))) g g1"
    and fp1: "set (fp g1 va (JSObj (amerge rp sel up fa fb)))
      \<subseteq> set (fp g va (JSObj fa)) \<union> set (fp_fields g (hash_of g b) fb)"
    and kv: "map_of (hash_of g1 t) k = Some v"
    using k by (simp_all add: merge_post_def)
  have c1: "cell g1 = cell g" using so by (simp add: same_outside_def)
  have bB: "ObjN b \<in> set (fp g vb (JSObj fb))" using assms(2) by simp
  then have bA: "ObjN b \<notin> set (fp g va (JSObj fa))" using assms(6) by blast
  then have hb1: "hash_of g1 b = hash_of g b" using so by (simp add: same_outside_def)
  have "ObjN b \<notin> set (fp_fields g (hash_of g b) fb)" using tb assms(2) by simp
  with bA fp1 have "ObjN b \<notin> set (fp g1 va (JSObj (amerge rp sel up fa fb)))" by blast
  moreover have "node_of g1 va = Some (ObjN t)" using assms(1) c1 by (simp add: node_of_def)
  ultimately have nb: "\<not> reach g1 (ObjN t) (ObjN b)" using repr_reach(1) [OF r1] by blast
  have "v \<in> set (values_obj t g1)" using kv unfolding values_obj_def by (rule map_of_in_values)
  moreover have "node_of g1 v = Some (ObjN x)" using k(4) c1 by (simp add: node_of_def)
  ultimately have "edge g1 (ObjN t) (ObjN x)" by (auto simp: edge_def)
  then have rx: "reach g1 (ObjN t) (ObjN x)" by (blast intro: reach_step reach_refl)
  from clear_obj_result [OF run(2)] nb rx
  have "cell g2 = cell g1" "hash_of g2 b = hash_of g1 b" "emptied g2 (ObjN x)" by blast+
  with hb1 c1 k show ?thesis by (simp add: emptied_count)
qed

text \<open>
  Receiver \<open>{}\<close> at handle 3, argument \<open>{"o": {"w": 1}}\<close> at handle 4: after the merge
  and the clear, the argument's entry \<open>"o"\<close> is an empty object.
\<close>

definition compose_heap :: heap where
  "compose_heap =
     \<lparr>vals = [0 \<mapsto> JNull, 3 \<mapsto> JObject 10, 4 \<mapsto> JObject 20, 21 \<mapsto> JObject 22, 23 \<mapsto> JDouble 1],
      objs = [2 \<mapsto> [], 10 \<mapsto> [], 20 \<mapsto> [(''o'', 21)], 22 \<mapsto> [(''w'', 23)]],
      arrs = [1 \<mapsto> []], lim = 30, signals = [],
      null_default = 0, array_default = 1, object_default = 2\<rparr>"

lemma compose_heap_unite:
  "unite_obj 2 (select_unite append_select) 10 (Some 20) Replace () compose_heap
     = Some (compose_heap\<lparr>objs := (objs compose_heap)(10 \<mapsto> [(''o'', 21)]),
                          signals := [(10, ItemAdded ''o'' 21)]\<rparr>)"
  by (simp add: eval_nat_numeral compose_heap_def keys_obj_def contains_obj_def value_obj_def hash_of_def cell_def
      insert_obj_def add_obj_def store_obj_def set_hash_def emit_def)

lemma compose_heap_clear:
  "clear_obj 3 10 (compose_heap\<lparr>objs := (objs compose_heap)(10 \<mapsto> [(''o'', 21)]),
                                signals := [(10, ItemAdded ''o'' 21)]\<rparr>) \<noteq> None"
  by (simp add: eval_nat_numeral compose_heap_def values_obj_def keys_obj_def hash_of_def elems_def cell_def
      remove_keys_def remove_obj_def erase_obj_def)

theorem unite_then_clear_empties_argument_witness:
  "\<exists>g1 g2. unite_obj 2 (select_unite append_select) 10 (Some 20) Replace () compose_heap = Some g1
     \<and> clear_obj 3 10 g1 = Some g2
     \<and> map_of (hash_of g2 20) ''o'' = Some 21 \<and> cell g2 21 = JObject 22 \<and> count_obj 22 g2 = 0"
proof -
  obtain g2 where c: "clear_obj 3 10 (compose_heap\<lparr>objs := (objs compose_heap)(10 \<mapsto> [(''o'', 21)]),
                                signals := [(10, ItemAdded ''o'' 21)]\<rparr>) = Some g2"
    using compose_heap_clear by blast
  have h: "cell compose_heap 3 = JObject 10" "cell compose_heap 4 = JObject 20"
    "repr compose_heap 3 (JSObj [])" "repr compose_heap 4 (JSObj [(''o'', JSObj [(''w'', JSNum 1)])])"
    "distinct (fp compose_heap 3 (JSObj []))"
    "set (fp compose_heap 3 (JSObj [])) \<inter> set (fp compose_heap 4 (JSObj [(''o'', JSObj [(''w'', JSNum 1)])])) = {}"
    "keys_ok (JSObj [])" "keys_ok (JSObj [(''o'', JSObj [(''w'', JSNum 1)])])"
    "depth (JSObj [(''o'', JSObj [(''w'', JSNum 1)])]) \<le> 2"
    "distinct (fp compose_heap 4 (JSObj [(''o'', JSObj [(''w'', JSNum 1)])]))"
    "''o'' \<noteq> []" "map_of (hash_of compose_heap 10) ''o'' = None"
    "map_of (hash_of compose_heap 20) ''o'' = Some 21" "cell compose_heap 21 = JObject 22"
    by (simp_all add: compose_heap_def cell_def hash_of_def)
  from unite_then_clear_empties_argument [OF h compose_heap_unite c] c compose_heap_unite
  show ?thesis by blast
qed

end
